theory Spec2Isabelle
  imports Main "HOL-Library.Word" "HOL-Library.AList"
begin

section \<open>Data model of the alert state manager\<close>

text \<open>
  The development follows package \<open>state\<close> of the alerting engine (the manager:
  \<open>Warm\<close>, \<open>ResetStateByRuleUID\<close>, \<open>ProcessEvalResults\<close>, \<open>setNextState\<close>,
  \<open>staleResultsHandler\<close>, \<open>isItStale\<close>, \<open>translateInstanceState\<close>).

  Conventions of the embedding:
  \<^item> a \<open>time.Time\<close> is the instant it denotes, an unbounded count of nanoseconds since the
    Unix epoch; a \<open>time.Duration\<close> and every \<open>int64\<close> that takes part in arithmetic is a
    64-bit word, so that products wrap as they do in Go; identifiers of type \<open>int64\<close> that
    are only compared are integers;
  \<^item> \<open>*State\<close> pointers are modelled by value: the manager reads a state from the cache,
    changes it and stores it back with \<open>set\<close>, which is what the writes through the pointer
    followed by \<open>st.set\<close> amount to as long as a state keeps its identity fields;
  \<^item> a Go map that is iterated is an association list with the map's contents; the order of
    the list stands for the order in which Go happens to range over the map;
  \<^item> calls to the collaborators (instance store, rule store, image service), the
    \<open>Error\<close> and \<open>Warn\<close> log lines and the dispatch of \<open>annotateState\<close> are recorded, in
    order, in a trace kept in the manager; \<open>Debug\<close> and \<open>Info\<close> log lines are left out;
  \<^item> the captured numeric values of a result are carried as an opaque type \<open>'v\<close>.
\<close>

type_synonym Time = int
type_synonym Duration = "64 word"
type_synonym Labels = "(string \<times> string) list"
type_synonym Image = string

text \<open>\<open>eval.State\<close>: the state reported by an evaluation and held by an instance.\<close>

datatype eval_State = Normal | Alerting | Pending | NoData | Error

text \<open>
  Modelled from the spec: \<open>eval.State.String\<close> is declared in package \<open>eval\<close>, outside
  the manager's file; the spec names the five values Normal, Alerting, Pending, NoData and
  Error, and \<open>String\<close> yields "the raw evaluation state's name".
\<close>

fun State_String :: "eval_State \<Rightarrow> string" where
  "State_String Normal = ''Normal''"
| "State_String Alerting = ''Alerting''"
| "State_String Pending = ''Pending''"
| "State_String NoData = ''NoData''"
| "State_String Error = ''Error''"

text \<open>
  Modelled from the spec: \<open>models.InstanceStateType\<close> is declared outside the manager's
  file. The spec describes it as a two-valued stored enum, Firing and Normal; any other
  stored string is kept as \<open>InstanceStateOther\<close>.
\<close>

datatype InstanceStateType = InstanceStateFiring | InstanceStateNormal | InstanceStateOther string

text \<open>
  \<open>models.AlertRule\<close>, restricted to the fields the manager reads outside of log lines and
  of the body of \<open>annotateState\<close>.
\<close>

record AlertRule =
  OrgID :: int
  UID :: string
  Condition :: string
  IntervalSeconds :: "64 word"
  Labels :: Labels
  Annotations :: Labels

text \<open>\<open>eval.Result\<close>: one evaluation result; \<open>Instance\<close> holds the labels of the series.\<close>

record 'v Result =
  Instance :: Labels
  State :: eval_State
  EvaluatedAt :: Time
  EvaluationDuration :: Duration
  EvaluationString :: string
  Values :: 'v

record 'v Evaluation =
  EvaluationTime :: Time
  EvaluationState :: eval_State
  Values :: 'v
  Condition :: string

text \<open>\<open>State\<close>: one alerting instance of one rule.\<close>

record 'v State =
  AlertRuleUID :: string
  OrgID :: int
  CacheID :: string
  StartsAt :: Time
  EndsAt :: Time
  LastEvaluationTime :: Time
  State :: eval_State
  StateReason :: string
  LastEvaluationString :: string
  Annotations :: Labels
  Labels :: Labels
  Image :: "Image option"
  Resolved :: bool
  Results :: "'v Evaluation list"
  EvaluationDuration :: Duration

text \<open>\<open>models.AlertInstance\<close>: an instance as the instance store keeps it.\<close>

record AlertInstance =
  RuleOrgID :: int
  RuleUID :: string
  Labels :: Labels
  CurrentState :: InstanceStateType
  CurrentReason :: string
  CurrentStateSince :: Time
  CurrentStateEnd :: Time
  LastEvalTime :: Time

text \<open>\<open>InstanceStateAndReason\<close>: a state together with its reason.\<close>

record InstanceStateAndReason =
  State :: eval_State
  Reason :: string

text \<open>What the manager does to the outside world, in the order in which it does it.\<close>

datatype 'v event =
    LogError string
  | LogWarn string
  | CallSaveAlertInstance "'v State"
  | CallDeleteAlertInstance int string string
  | CallDeleteAlertInstancesByRule int string
  | CallTakeImage AlertRule
  | CallAnnotateState AlertRule Labels Time InstanceStateAndReason InstanceStateAndReason

text \<open>
  The cache: semantically \<open>map[OrgID] \<rightarrow> map[AlertRuleUID] \<rightarrow> map[CacheID] \<rightarrow> State\<close>,
  kept as one association list keyed by the triple.
\<close>

type_synonym CacheKey = "int \<times> string \<times> string"
type_synonym 'v cache = "(CacheKey \<times> 'v State) list"

text \<open>
  The manager: its cache, the number of requests made so far to the image service and to
  the stores, and the trace.
\<close>

record 'v Manager =
  cache :: "'v cache"
  imageCalls :: nat
  storeCalls :: nat
  trace :: "'v event list"

text \<open>
  The parts of the program that the manager calls and that lie outside the manager's file
  are parameters. The transition functions \<open>resultNormal\<close>, \<open>resultAlerting\<close>,
  \<open>resultError\<close> and \<open>resultNoData\<close>, \<open>shouldTakeImage\<close>, \<open>NewEvaluationValues\<close> and the
  two label hashes are arbitrary functions; \<open>trimResults\<close> is what \<open>TrimResults\<close> does to
  the history. The collaborators answer each request by its number, so that an answer may
  change from one request to the next: \<open>takeImage\<close> yields the image (or none) and the
  error (or none), the store operations yield their error (or none), and the store
  queries yield their result together with their error.
\<close>

record 'v env =
  resultNormal :: "'v State \<Rightarrow> AlertRule \<Rightarrow> 'v Result \<Rightarrow> 'v State"
  resultAlerting :: "'v State \<Rightarrow> AlertRule \<Rightarrow> 'v Result \<Rightarrow> 'v State"
  resultError :: "'v State \<Rightarrow> AlertRule \<Rightarrow> 'v Result \<Rightarrow> 'v State"
  resultNoData :: "'v State \<Rightarrow> AlertRule \<Rightarrow> 'v Result \<Rightarrow> 'v State"
  trimResults :: "AlertRule \<Rightarrow> 'v Evaluation list \<Rightarrow> 'v Evaluation list"
  NewEvaluationValues :: "'v \<Rightarrow> 'v"
  shouldTakeImage :: "eval_State \<Rightarrow> eval_State \<Rightarrow> Image option \<Rightarrow> bool \<Rightarrow> bool"
  takeImage :: "nat \<Rightarrow> AlertRule \<Rightarrow> Image option \<times> string option"
  StringKey :: "Labels \<Rightarrow> string \<times> string option"
  StringAndHash :: "Labels \<Rightarrow> string \<times> string \<times> string option"
  SaveAlertInstance :: "nat \<Rightarrow> 'v State \<Rightarrow> string option"
  DeleteAlertInstance :: "nat \<Rightarrow> int \<Rightarrow> string \<Rightarrow> string \<Rightarrow> string option"
  DeleteAlertInstancesByRule :: "nat \<Rightarrow> int \<Rightarrow> string \<Rightarrow> string option"
  FetchOrgIds :: "nat \<Rightarrow> int list \<times> string option"
  ListAlertRules :: "nat \<Rightarrow> int \<Rightarrow> AlertRule list \<times> string option"
  ListAlertInstances :: "nat \<Rightarrow> int \<Rightarrow> AlertInstance list \<times> string option"

section \<open>Time\<close>

definition Second :: Duration where
  "Second = 1000000000"

definition ResendDelay :: Duration where
  "ResendDelay = 30 * Second"

text \<open>The zero \<open>time.Time\<close>: January 1 of year 1, 00:00 UTC.\<close>

definition zeroTime :: Time where
  "zeroTime = - 62135596800 * 1000000000"

definition Add :: "Time \<Rightarrow> Duration \<Rightarrow> Time" where
  "Add t d = t + sint d"

definition After :: "Time \<Rightarrow> Time \<Rightarrow> bool" where
  "After t u = (u < t)"

definition isItStale :: "Time \<Rightarrow> Time \<Rightarrow> 64 word \<Rightarrow> bool" where
  "isItStale evaluatedAt lastEval intervalSeconds =
     (\<not> After (Add lastEval (2 * intervalSeconds * Second)) evaluatedAt)"

section \<open>The cache\<close>

text \<open>
  Modelled from the spec: the cache lies outside the manager's file; its operations follow
  section 4.1 of the spec. \<open>getOrCreate\<close> "computes the merged label set (extra labels
  override rule labels override result labels), derives CacheID, returns the existing
  State or creates a new Normal-state one with StartsAt = EndsAt = now", where now is taken
  to be the instant of the evaluation; a created state is stored, which is what makes the
  operation idempotent per CacheID. Fields the spec does not mention have Go's zero value.
  \<open>set\<close> stores a state under its own identity, \<open>get\<close> fails when the entry is absent,
  \<open>getStatesForRuleUID\<close> reads the states of a rule, \<open>removeByRuleUID\<close> "deletes and
  returns all matching states", \<open>deleteEntry\<close> deletes one instance and \<open>reset\<close> clears
  everything.
\<close>

definition overrideLabels :: "Labels \<Rightarrow> Labels \<Rightarrow> Labels" where
  "overrideLabels base over = fold (\<lambda>(k, v). AList.update k v) over base"

definition mergeLabels :: "Labels \<Rightarrow> Labels \<Rightarrow> Labels \<Rightarrow> Labels" where
  "mergeLabels resultLabels ruleLabels extraLabels =
     overrideLabels (overrideLabels resultLabels ruleLabels) extraLabels"

definition stateKey :: "'v State \<Rightarrow> CacheKey" where
  "stateKey s = (State.OrgID s, AlertRuleUID s, CacheID s)"

definition newState :: "AlertRule \<Rightarrow> 'v Result \<Rightarrow> Labels \<Rightarrow> string \<Rightarrow> 'v State" where
  "newState alertRule result lbs cid =
     \<lparr> AlertRuleUID = UID alertRule,
       State.OrgID = AlertRule.OrgID alertRule,
       CacheID = cid,
       StartsAt = EvaluatedAt result,
       EndsAt = EvaluatedAt result,
       LastEvaluationTime = zeroTime,
       State.State = Normal,
       StateReason = [],
       LastEvaluationString = [],
       State.Annotations = [],
       State.Labels = lbs,
       Image = None,
       Resolved = False,
       Results = [],
       State.EvaluationDuration = 0 \<rparr>"

definition cache_getOrCreate ::
  "'v env \<Rightarrow> 'v cache \<Rightarrow> AlertRule \<Rightarrow> 'v Result \<Rightarrow> Labels \<Rightarrow> 'v State \<times> 'v cache" where
  "cache_getOrCreate e c alertRule result extraLabels =
     (let lbs = mergeLabels (Instance result) (AlertRule.Labels alertRule) extraLabels;
          cid = fst (StringKey e lbs);
          k = (AlertRule.OrgID alertRule, UID alertRule, cid)
      in case map_of c k of
           Some s \<Rightarrow> (s, c)
         | None \<Rightarrow>
             (let s = newState alertRule result lbs cid in (s, AList.update k s c)))"

definition cache_set :: "'v cache \<Rightarrow> 'v State \<Rightarrow> 'v cache" where
  "cache_set c entry = AList.update (stateKey entry) entry c"

datatype cache_error = NotFound

definition cache_get :: "'v cache \<Rightarrow> int \<Rightarrow> string \<Rightarrow> string \<Rightarrow> cache_error + 'v State" where
  "cache_get c orgID alertRuleUID stateId =
     (case map_of c (orgID, alertRuleUID, stateId) of
        None \<Rightarrow> Inl NotFound
      | Some s \<Rightarrow> Inr s)"

definition ofRule :: "int \<Rightarrow> string \<Rightarrow> CacheKey \<times> 'v State \<Rightarrow> bool" where
  "ofRule orgID alertRuleUID kv = (fst (fst kv) = orgID \<and> fst (snd (fst kv)) = alertRuleUID)"

definition cache_getStatesForRuleUID :: "'v cache \<Rightarrow> int \<Rightarrow> string \<Rightarrow> 'v State list" where
  "cache_getStatesForRuleUID c orgID alertRuleUID =
     map snd (filter (ofRule orgID alertRuleUID) c)"

definition cache_removeByRuleUID ::
  "'v cache \<Rightarrow> int \<Rightarrow> string \<Rightarrow> 'v State list \<times> 'v cache" where
  "cache_removeByRuleUID c orgID alertRuleUID =
     (map snd (filter (ofRule orgID alertRuleUID) c),
      filter (\<lambda>kv. \<not> ofRule orgID alertRuleUID kv) c)"

definition cache_deleteEntry :: "'v cache \<Rightarrow> int \<Rightarrow> string \<Rightarrow> string \<Rightarrow> 'v cache" where
  "cache_deleteEntry c orgID alertRuleUID cacheID =
     AList.delete (orgID, alertRuleUID, cacheID) c"

definition cache_reset :: "'v cache" where
  "cache_reset = []"

text \<open>
  What a Go map of maps guarantees by construction, and what \<open>set\<close> maintains: a key
  occurs once, and an entry is stored under the identity of its state.
\<close>

definition cache_wf :: "'v cache \<Rightarrow> bool" where
  "cache_wf c = (distinct (map fst c) \<and> list_all (\<lambda>kv. fst kv = stateKey (snd kv)) c)"

section \<open>The manager\<close>

definition logError :: "string \<Rightarrow> 'v Manager \<Rightarrow> 'v Manager" where
  "logError msg m = m\<lparr>trace := trace m @ [LogError msg]\<rparr>"

definition logWarn :: "string \<Rightarrow> 'v Manager \<Rightarrow> 'v Manager" where
  "logWarn msg m = m\<lparr>trace := trace m @ [LogWarn msg]\<rparr>"

definition logIfErr :: "string \<Rightarrow> string option \<Rightarrow> 'v Manager \<Rightarrow> 'v Manager" where
  "logIfErr msg err m = (case err of None \<Rightarrow> m | Some _ \<Rightarrow> logError msg m)"

definition set_state :: "'v Manager \<Rightarrow> 'v State \<Rightarrow> 'v Manager" where
  "set_state m entry = m\<lparr>cache := cache_set (cache m) entry\<rparr>"

definition ResetAllStates :: "'v Manager \<Rightarrow> 'v Manager" where
  "ResetAllStates m = m\<lparr>cache := cache_reset\<rparr>"

definition GetStatesForRuleUID :: "'v Manager \<Rightarrow> int \<Rightarrow> string \<Rightarrow> 'v State list" where
  "GetStatesForRuleUID m orgID alertRuleUID = cache_getStatesForRuleUID (cache m) orgID alertRuleUID"

definition translateInstanceState :: "InstanceStateType \<Rightarrow> eval_State" where
  "translateInstanceState state =
     (if state = InstanceStateFiring then Alerting
      else if state = InstanceStateNormal then Normal
      else Error)"

text \<open>
  \<open>Warm\<close>: the cache is cleared, then for every organisation the rules and the persisted
  instances are read; an instance whose rule is missing is skipped, the others become
  states, which are stored at the end. A store error is logged and the result that came
  with it is used as it is.
\<close>

definition ruleByUID_of :: "AlertRule list \<Rightarrow> (string \<rightharpoonup> AlertRule)" where
  "ruleByUID_of rules = fold (\<lambda>rule mp. mp(UID rule \<mapsto> rule)) rules Map.empty"

definition stateForEntry :: "AlertInstance \<Rightarrow> AlertRule \<Rightarrow> string \<Rightarrow> 'v State" where
  "stateForEntry entry ruleForEntry cacheID =
     \<lparr> AlertRuleUID = RuleUID entry,
       State.OrgID = RuleOrgID entry,
       CacheID = cacheID,
       StartsAt = CurrentStateSince entry,
       EndsAt = CurrentStateEnd entry,
       LastEvaluationTime = LastEvalTime entry,
       State.State = translateInstanceState (CurrentState entry),
       StateReason = CurrentReason entry,
       LastEvaluationString = [],
       State.Annotations = AlertRule.Annotations ruleForEntry,
       State.Labels = AlertInstance.Labels entry,
       Image = None,
       Resolved = False,
       Results = [],
       State.EvaluationDuration = 0 \<rparr>"

definition warmEntry ::
  "'v env \<Rightarrow> (string \<rightharpoonup> AlertRule) \<Rightarrow> AlertInstance \<Rightarrow> 'v State list \<times> 'v Manager
     \<Rightarrow> 'v State list \<times> 'v Manager" where
  "warmEntry e ruleByUID entry acc =
     (case ruleByUID (RuleUID entry) of
        None \<Rightarrow> (fst acc, logError ''rule not found for instance, ignoring'' (snd acc))
      | Some ruleForEntry \<Rightarrow>
          (let key = StringKey e (AlertInstance.Labels entry);
               m1 = logIfErr ''error getting cacheID for entry'' (snd key) (snd acc)
           in (fst acc @ [stateForEntry entry ruleForEntry (fst key)], m1)))"

definition warmOrg ::
  "'v env \<Rightarrow> int \<Rightarrow> 'v State list \<times> 'v Manager \<Rightarrow> 'v State list \<times> 'v Manager" where
  "warmOrg e orgId acc =
     (let m = snd acc;
          ruleCmd = ListAlertRules e (storeCalls m) orgId;
          m1 = logIfErr ''unable to fetch previous state'' (snd ruleCmd)
                 (m\<lparr>storeCalls := Suc (storeCalls m)\<rparr>);
          ruleByUID = ruleByUID_of (fst ruleCmd);
          cmd = ListAlertInstances e (storeCalls m1) orgId;
          m2 = logIfErr ''unable to fetch previous state'' (snd cmd)
                 (m1\<lparr>storeCalls := Suc (storeCalls m1)\<rparr>)
      in fold (warmEntry e ruleByUID) (fst cmd) (fst acc, m2))"

definition Warm :: "'v env \<Rightarrow> 'v Manager \<Rightarrow> 'v Manager" where
  "Warm e m =
     (let m0 = ResetAllStates m;
          orgIds = FetchOrgIds e (storeCalls m0);
          m1 = logIfErr ''unable to fetch orgIds'' (snd orgIds)
                 (m0\<lparr>storeCalls := Suc (storeCalls m0)\<rparr>);
          acc = fold (warmOrg e) (fst orgIds) ([], m1)
      in fold (\<lambda>s m'. set_state m' s) (fst acc) (snd acc))"

text \<open>
  \<open>ResetStateByRuleUID\<close>: the states of the rule leave the cache, the instance store is
  asked to delete them when there are any, and the removed states are returned.
\<close>

definition ResetStateByRuleUID ::
  "'v env \<Rightarrow> 'v Manager \<Rightarrow> int \<Rightarrow> string \<Rightarrow> 'v State list \<times> 'v Manager" where
  "ResetStateByRuleUID e m orgID uid =
     (let removed = cache_removeByRuleUID (cache m) orgID uid;
          states = fst removed;
          m1 = m\<lparr>cache := snd removed\<rparr>;
          m2 = (if length states > 0
                then logIfErr ''failed to delete states that belong to a rule from database''
                       (DeleteAlertInstancesByRule e (storeCalls m1) orgID uid)
                       (m1\<lparr>storeCalls := Suc (storeCalls m1),
                           trace := trace m1 @ [CallDeleteAlertInstancesByRule orgID uid]\<rparr>)
                else m1)
      in (states, m2))"

text \<open>
  One request to the image service (\<open>takeImage\<close>), as both \<open>setNextState\<close> and
  \<open>staleResultsHandler\<close> make it: an error is logged as a warning and leaves the image as
  it was, and so does an answer without an image.
\<close>

definition requestImage ::
  "'v env \<Rightarrow> AlertRule \<Rightarrow> Image option \<Rightarrow> 'v Manager \<Rightarrow> Image option \<times> 'v Manager" where
  "requestImage e r current m =
     (let answer = takeImage e (imageCalls m) r;
          m1 = m\<lparr>imageCalls := Suc (imageCalls m), trace := trace m @ [CallTakeImage r]\<rparr>
      in case snd answer of
           Some _ \<Rightarrow> (current, logWarn ''Failed to take an image'' m1)
         | None \<Rightarrow>
             (case fst answer of
                Some img \<Rightarrow> (Some img, m1)
              | None \<Rightarrow> (current, m1)))"

definition TrimResults :: "'v env \<Rightarrow> 'v State \<Rightarrow> AlertRule \<Rightarrow> 'v State" where
  "TrimResults e a alertRule = a\<lparr>Results := trimResults e alertRule (Results a)\<rparr>"

definition stateAndReason :: "eval_State \<Rightarrow> string \<Rightarrow> InstanceStateAndReason" where
  "stateAndReason s r = \<lparr> InstanceStateAndReason.State = s, Reason = r \<rparr>"

text \<open>
  \<open>setNextState\<close>: the state of the instance is fetched or created, the bookkeeping fields
  are written, the transition function chosen by the state of the result is applied
  (none for \<open>Pending\<close>), the reason and the \<open>Resolved\<close> flag are set, an image may be taken,
  the state is stored and an annotation is dispatched when state or reason changed.
\<close>

definition applyResult :: "'v env \<Rightarrow> 'v State \<Rightarrow> AlertRule \<Rightarrow> 'v Result \<Rightarrow> 'v State" where
  "applyResult e currentState alertRule result =
     (case Result.State result of
        Normal \<Rightarrow> resultNormal e currentState alertRule result
      | Alerting \<Rightarrow> resultAlerting e currentState alertRule result
      | Error \<Rightarrow> resultError e currentState alertRule result
      | NoData \<Rightarrow> resultNoData e currentState alertRule result
      | Pending \<Rightarrow> currentState)"

definition setNextState ::
  "'v env \<Rightarrow> 'v Manager \<Rightarrow> AlertRule \<Rightarrow> 'v Result \<Rightarrow> Labels \<Rightarrow> 'v State \<times> 'v Manager" where
  "setNextState e m alertRule result extraLabels =
     (let got = cache_getOrCreate e (cache m) alertRule result extraLabels;
          m0 = m\<lparr>cache := snd got\<rparr>;
          s1 = (fst got)
                 \<lparr> LastEvaluationTime := EvaluatedAt result,
                   State.EvaluationDuration := Result.EvaluationDuration result,
                   Results := Results (fst got) @
                     [\<lparr> EvaluationTime = EvaluatedAt result,
                        EvaluationState = Result.State result,
                        Evaluation.Values = NewEvaluationValues e (Result.Values result),
                        Evaluation.Condition = AlertRule.Condition alertRule \<rparr>],
                   LastEvaluationString := EvaluationString result \<rparr>;
          s2 = TrimResults e s1 alertRule;
          oldState = State.State s2;
          oldReason = StateReason s2;
          s3 = applyResult e s2 alertRule result;
          s4 = s3\<lparr>StateReason := []\<rparr>;
          s5 = (if State.State s4 \<noteq> Result.State result \<and>
                   Result.State result \<noteq> Normal \<and>
                   Result.State result \<noteq> Alerting
                then s4\<lparr>StateReason := State_String (Result.State result)\<rparr>
                else s4);
          s6 = s5\<lparr>Resolved := (oldState = Alerting \<and> State.State s5 = Normal)\<rparr>;
          taken = (if shouldTakeImage e (State.State s6) oldState (Image s6) (Resolved s6)
                   then requestImage e alertRule (Image s6) m0
                   else (Image s6, m0));
          currentState = s6\<lparr>Image := fst taken\<rparr>;
          m1 = set_state (snd taken) currentState;
          shouldUpdateAnnotation =
            (oldState \<noteq> State.State currentState \<or> oldReason \<noteq> StateReason currentState);
          m2 = (if shouldUpdateAnnotation
                then m1\<lparr>trace := trace m1 @
                       [CallAnnotateState alertRule (State.Labels currentState) (EvaluatedAt result)
                          (stateAndReason (State.State currentState) (StateReason currentState))
                          (stateAndReason oldState oldReason)]\<rparr>
                else m1)
      in (currentState, m2))"

text \<open>
  Modelled from the spec: \<open>State.Resolve\<close> and the constant
  \<open>StateReasonMissingSeries\<close> are declared outside the manager's file. A stale Alerting
  instance "is force-resolved (reason: "missing series")": it becomes Normal with the
  given reason, ends at the given time and is marked resolved.
\<close>

definition StateReasonMissingSeries :: string where
  "StateReasonMissingSeries = ''missing series''"

definition Resolve :: "'v State \<Rightarrow> string \<Rightarrow> Time \<Rightarrow> 'v State" where
  "Resolve a reason endsAt =
     a\<lparr>State.State := Normal, StateReason := reason, EndsAt := endsAt, Resolved := True\<rparr>"

text \<open>
  \<open>staleResultsHandler\<close>: every known state of the rule that is not in the batch and is
  stale leaves the cache and the instance store; a stale state that was Alerting is
  resolved, annotated and given the resolved image of the sweep, which is requested as long
  as there is none. \<open>staleStep\<close> is the body of the loop; it carries the resolved image,
  the resolved states and the manager.
\<close>

definition staleStep ::
  "'v env \<Rightarrow> AlertRule \<Rightarrow> (string \<rightharpoonup> 'v State) \<Rightarrow> Time \<Rightarrow> 'v State
     \<Rightarrow> Image option \<times> 'v State list \<times> 'v Manager \<Rightarrow> Image option \<times> 'v State list \<times> 'v Manager" where
  "staleStep e r states evaluatedAt s acc =
     (case acc of (resolvedImage, resolvedStates, m) \<Rightarrow>
        if states (CacheID s) = None \<and>
           isItStale evaluatedAt (LastEvaluationTime s) (IntervalSeconds r)
        then
          (let m1 = m\<lparr>cache := cache_deleteEntry (cache m) (State.OrgID s) (AlertRuleUID s) (CacheID s)\<rparr>;
               hashed = StringAndHash e (State.Labels s);
               labelsHash = fst (snd hashed);
               m2 = logIfErr ''unable to get labelsHash'' (snd (snd hashed)) m1;
               m3 = logIfErr ''unable to delete stale instance from database''
                      (DeleteAlertInstance e (storeCalls m2) (State.OrgID s) (AlertRuleUID s) labelsHash)
                      (m2\<lparr>storeCalls := Suc (storeCalls m2),
                          trace := trace m2 @
                            [CallDeleteAlertInstance (State.OrgID s) (AlertRuleUID s) labelsHash]\<rparr>)
           in if State.State s = Alerting
              then
                (let previousState = stateAndReason (State.State s) (StateReason s);
                     s1 = Resolve s StateReasonMissingSeries evaluatedAt;
                     m4 = m3\<lparr>trace := trace m3 @
                            [CallAnnotateState r (State.Labels s1) evaluatedAt
                               (stateAndReason Normal (StateReason s1)) previousState]\<rparr>;
                     taken = (if resolvedImage = None
                              then requestImage e r resolvedImage m4
                              else (resolvedImage, m4))
                 in (fst taken, resolvedStates @ [s1\<lparr>Image := fst taken\<rparr>], snd taken))
              else (resolvedImage, resolvedStates, m3))
        else (resolvedImage, resolvedStates, m))"

definition staleResultsHandler ::
  "'v env \<Rightarrow> 'v Manager \<Rightarrow> AlertRule \<Rightarrow> (string \<rightharpoonup> 'v State) \<Rightarrow> Time
     \<Rightarrow> 'v State list \<times> 'v Manager" where
  "staleResultsHandler e m r states evaluatedAt =
     (let knownStates = GetStatesForRuleUID m (AlertRule.OrgID r) (UID r)
      in snd (fold (staleStep e r states evaluatedAt) knownStates (None, [], m)))"

text \<open>
  \<open>saveState\<close> and \<open>ProcessEvalResults\<close>: every result goes through \<open>setNextState\<close>, the
  stale states are handled, the updated states are saved, and the updated states followed
  by the resolved ones are returned.
\<close>

definition saveState :: "'v env \<Rightarrow> 'v Manager \<Rightarrow> 'v State \<Rightarrow> string option \<times> 'v Manager" where
  "saveState e m s =
     (SaveAlertInstance e (storeCalls m) s,
      m\<lparr>storeCalls := Suc (storeCalls m), trace := trace m @ [CallSaveAlertInstance s]\<rparr>)"

definition processResult ::
  "'v env \<Rightarrow> AlertRule \<Rightarrow> Labels \<Rightarrow> 'v Result
     \<Rightarrow> 'v State list \<times> (string \<rightharpoonup> 'v State) \<times> 'v Manager
     \<Rightarrow> 'v State list \<times> (string \<rightharpoonup> 'v State) \<times> 'v Manager" where
  "processResult e alertRule extraLabels result acc =
     (case acc of (states, processedResults, m) \<Rightarrow>
        (let next = setNextState e m alertRule result extraLabels
         in (states @ [fst next], processedResults(CacheID (fst next) \<mapsto> fst next), snd next)))"

definition saveStep :: "'v env \<Rightarrow> 'v State \<Rightarrow> 'v Manager \<Rightarrow> 'v Manager" where
  "saveStep e state m =
     (let saved = saveState e m state
      in logIfErr ''failed to save alert state'' (fst saved) (snd saved))"


section \<open>A sample of the parameters\<close>

text \<open>
  Modelled from the spec: a sample of the parameters, on which the model is run at concrete
  inputs. The transition functions follow section 4.2 of the spec: "entering a new state
  sets StartsAt = now; remaining in the same state extends EndsAt; EndsAt for Alerting is
  pushed forward by a resend-delay cushion". The image policy is "state changed, or
  resolved". The history keeps its last ten records, the label hashes write the labels
  out, and no collaborator fails.
\<close>

definition enterState :: "eval_State \<Rightarrow> Duration \<Rightarrow> 'v State \<Rightarrow> AlertRule \<Rightarrow> 'v Result \<Rightarrow> 'v State" where
  "enterState target cushion a alertRule result =
     (if State.State a \<noteq> target
      then a\<lparr>State.State := target, StartsAt := EvaluatedAt result,
             EndsAt := Add (EvaluatedAt result) cushion\<rparr>
      else a\<lparr>EndsAt := Add (EvaluatedAt result) cushion\<rparr>)"

definition labelsString :: "Labels \<Rightarrow> string" where
  "labelsString lbs = concat (map (\<lambda>(k, v). k @ ''='' @ v @ '';'') lbs)"

definition sampleEnv :: "unit env" where
  "sampleEnv =
     \<lparr> resultNormal = enterState Normal 0,
       resultAlerting = enterState Alerting ResendDelay,
       resultError = enterState Error 0,
       resultNoData = enterState NoData 0,
       trimResults = (\<lambda>alertRule rs. drop (length rs - 10) rs),
       NewEvaluationValues = (\<lambda>v. v),
       shouldTakeImage = (\<lambda>state previous img resolved. state \<noteq> previous \<or> resolved),
       takeImage = (\<lambda>n alertRule. (Some ''image'', None)),
       StringKey = (\<lambda>lbs. (labelsString lbs, None)),
       StringAndHash = (\<lambda>lbs. (labelsString lbs, labelsString lbs, None)),
       SaveAlertInstance = (\<lambda>n s. None),
       DeleteAlertInstance = (\<lambda>n orgID uid labelsHash. None),
       DeleteAlertInstancesByRule = (\<lambda>n orgID uid. None),
       FetchOrgIds = (\<lambda>n. ([], None)),
       ListAlertRules = (\<lambda>n orgID. ([], None)),
       ListAlertInstances = (\<lambda>n orgID. ([], None)) \<rparr>"

definition sampleRule :: AlertRule where
  "sampleRule =
     \<lparr> AlertRule.OrgID = 1, UID = ''rule-1'', AlertRule.Condition = ''A'',
       IntervalSeconds = 10, AlertRule.Labels = [], AlertRule.Annotations = [] \<rparr>"

definition sampleResult :: "eval_State \<Rightarrow> Time \<Rightarrow> unit Result" where
  "sampleResult st t =
     \<lparr> Instance = [(''host'', ''a'')], Result.State = st, EvaluatedAt = t,
       Result.EvaluationDuration = 5, EvaluationString = [], Result.Values = () \<rparr>"

definition sampleState :: "string \<Rightarrow> eval_State \<Rightarrow> Time \<Rightarrow> unit State" where
  "sampleState cid st t =
     \<lparr> AlertRuleUID = ''rule-1'', State.OrgID = 1, CacheID = cid, StartsAt = t, EndsAt = t,
       LastEvaluationTime = t, State.State = st, StateReason = [],
       LastEvaluationString = [], State.Annotations = [], State.Labels = [(''host'', cid)],
       Image = None, Resolved = False, Results = [], State.EvaluationDuration = 0 \<rparr>"

definition emptyManager :: "unit Manager" where
  "emptyManager = \<lparr> cache = [], imageCalls = 0, storeCalls = 0, trace = [] \<rparr>"

definition managerWith :: "unit State list \<Rightarrow> unit Manager" where
  "managerWith ss = fold (\<lambda>s m. set_state m s) ss emptyManager"

definition sampleInstance :: "InstanceStateType \<Rightarrow> string \<Rightarrow> AlertInstance" where
  "sampleInstance st uid =
     \<lparr> RuleOrgID = 1, RuleUID = uid, AlertInstance.Labels = [(''host'', ''a'')],
       CurrentState = st, CurrentReason = [], CurrentStateSince = 100, CurrentStateEnd = 200,
       LastEvalTime = 100 \<rparr>"

definition warmEnv :: "AlertInstance list \<Rightarrow> unit env" where
  "warmEnv entries =
     sampleEnv\<lparr> FetchOrgIds := (\<lambda>n. ([1], None)),
                ListAlertRules := (\<lambda>n orgId. ([sampleRule], None)),
                ListAlertInstances := (\<lambda>n orgId. (entries, None)) \<rparr>"

text \<open>An image service whose first answer is an error and whose later answers are an image.\<close>

definition flakyImages :: "unit env" where
  "flakyImages =
     sampleEnv\<lparr>takeImage := (\<lambda>n alertRule. if n = 0 then (None, Some ''timeout'') else (Some ''image'', None))\<rparr>"


section \<open>Notions used in the statements\<close>

text \<open>The state of the instance as \<open>setNextState\<close> finds it: what \<open>getOrCreate\<close> returns.\<close>

definition instanceBefore ::
  "'v env \<Rightarrow> 'v Manager \<Rightarrow> AlertRule \<Rightarrow> 'v Result \<Rightarrow> Labels \<Rightarrow> 'v State" where
  "instanceBefore e m alertRule result extraLabels =
     fst (cache_getOrCreate e (cache m) alertRule result extraLabels)"

text \<open>The evaluation record that \<open>setNextState\<close> appends to the history.\<close>

definition evaluationOf :: "'v env \<Rightarrow> AlertRule \<Rightarrow> 'v Result \<Rightarrow> 'v Evaluation" where
  "evaluationOf e alertRule result =
     \<lparr> EvaluationTime = EvaluatedAt result,
       EvaluationState = Result.State result,
       Evaluation.Values = NewEvaluationValues e (Result.Values result),
       Evaluation.Condition = AlertRule.Condition alertRule \<rparr>"



text \<open>
  Where a warmed state comes from: an instance listed for one of the organisations, and a
  rule with the UID of the instance listed for the same organisation just before.
\<close>

definition warmedFrom :: "'v env \<Rightarrow> int list \<Rightarrow> 'v State \<Rightarrow> bool" where
  "warmedFrom e orgIds s =
     (\<exists>n orgId entry rule.
        orgId \<in> set orgIds \<and>
        rule \<in> set (fst (ListAlertRules e n orgId)) \<and>
        entry \<in> set (fst (ListAlertInstances e (Suc n) orgId)) \<and>
        UID rule = RuleUID entry \<and>
        s = stateForEntry entry rule (fst (StringKey e (AlertInstance.Labels entry))))"


text \<open>
  The condition under which \<open>staleResultsHandler\<close> evicts a known state: it is not in the
  batch and it is stale. An answer of the image service that brings no image. The
  requests to delete one instance from the instance store, and the request that the sweep
  makes for a state.
\<close>

definition staleAbsent :: "AlertRule \<Rightarrow> (string \<rightharpoonup> 'v State) \<Rightarrow> Time \<Rightarrow> 'v State \<Rightarrow> bool" where
  "staleAbsent r states evaluatedAt s =
     (states (CacheID s) = None \<and>
      isItStale evaluatedAt (LastEvaluationTime s) (IntervalSeconds r))"

definition noImage :: "Image option \<times> string option \<Rightarrow> bool" where
  "noImage answer = (snd answer \<noteq> None \<or> fst answer = None)"

fun isDeleteInstance :: "'v event \<Rightarrow> bool" where
  "isDeleteInstance (CallDeleteAlertInstance orgID uid labelsHash) = True"
| "isDeleteInstance _ = False"

definition deleteCallOf :: "'v env \<Rightarrow> 'v State \<Rightarrow> 'v event" where
  "deleteCallOf e s =
     CallDeleteAlertInstance (State.OrgID s) (AlertRuleUID s) (fst (snd (StringAndHash e (State.Labels s))))"

text \<open>
  How the resolved states of one sweep stand to the image service, whose requests are
  numbered from \<open>n\<close> to \<open>n'\<close>: a first stretch of states without image, one failed request
  each, then the states that all carry the image of the one request that succeeded.
\<close>

definition imagesShared :: "'v env \<Rightarrow> AlertRule \<Rightarrow> nat \<Rightarrow> nat \<Rightarrow> 'v State list \<Rightarrow> bool" where
  "imagesShared e r n n' resolved =
     (\<exists>xs ys. resolved = xs @ ys \<and>
        (\<forall>x\<in>set xs. Image x = None) \<and>
        (\<forall>j<length xs. noImage (takeImage e (n + j) r)) \<and>
        (ys = [] \<longrightarrow> n' = n + length xs) \<and>
        (ys \<noteq> [] \<longrightarrow> n' = Suc (n + length xs) \<and>
           (\<exists>i. takeImage e (n + length xs) r = (Some i, None) \<and>
              (\<forall>y\<in>set ys. Image y = Some i))))"

text \<open>
  The parts of \<open>ProcessEvalResults\<close>: the states that the loop over the results collects,
  the call of \<open>staleResultsHandler\<close> that follows the loop, and what saving a list of
  states leaves in the trace, the saves being numbered from \<open>n\<close>: the request, followed by
  an error line when the store fails.
\<close>

definition updatedStates ::
  "'v env \<Rightarrow> 'v Manager \<Rightarrow> AlertRule \<Rightarrow> 'v Result list \<Rightarrow> Labels \<Rightarrow> 'v State list" where
  "updatedStates e m alertRule results extraLabels =
     fst (fold (processResult e alertRule extraLabels) results ([], Map.empty, m))"



section \<open>Properties of \<open>setNextState\<close>\<close>

lemma State_String_nonempty: "State_String s \<noteq> []"
  by (cases s) simp_all





text \<open>
  C2. For every evaluation result processed by \<open>setNextState\<close>, the \<open>Resolved\<close> flag of the
  resulting state is true if and only if the state of the instance before the transition
  was Alerting and its state after the transition is Normal. In every other transition,
  Alerting to Alerting included, it is false.
\<close>

theorem resolved_flag_law:
  "Resolved (fst (setNextState e m r x l)) \<longleftrightarrow>
     State.State (instanceBefore e m r x l) = Alerting \<and>
     State.State (fst (setNextState e m r x l)) = Normal"
  by (simp add: setNextState_def instanceBefore_def Let_def TrimResults_def)

text \<open>
  On the sample parameters: an Alerting instance that receives a Normal result is resolved,
  and one that receives an Alerting result is not.
\<close>

theorem resolved_flag_law_witness:
  "Resolved (fst (setNextState sampleEnv (managerWith [sampleState ''host=a;'' Alerting 100])
      sampleRule (sampleResult Normal 200) []))
   \<and> \<not> Resolved (fst (setNextState sampleEnv (managerWith [sampleState ''host=a;'' Alerting 100])
      sampleRule (sampleResult Alerting 200) []))"
proof -
  let ?m = "managerWith [sampleState ''host=a;'' Alerting 100]"
  have a: "State.State (instanceBefore sampleEnv ?m sampleRule (sampleResult Normal 200) []) = Alerting"
    by code_simp
  have b: "State.State (fst (setNextState sampleEnv ?m sampleRule (sampleResult Normal 200) [])) = Normal"
    by code_simp
  have c: "State.State (fst (setNextState sampleEnv ?m sampleRule (sampleResult Alerting 200) [])) = Alerting"
    by code_simp
  show ?thesis
    using a b c
      resolved_flag_law [of sampleEnv ?m sampleRule "sampleResult Normal 200" "[]"]
      resolved_flag_law [of sampleEnv ?m sampleRule "sampleResult Alerting 200" "[]"]
    by simp
qed

text \<open>
  C3. After \<open>setNextState\<close> has processed an evaluation result, the \<open>StateReason\<close> of the
  instance is non-empty if and only if the resulting state of the instance differs from the
  state of the raw result and the state of the raw result is neither Normal nor Alerting;
  when it is non-empty, it is the name of the state of the raw result.
\<close>

theorem state_reason_law:
  "(StateReason (fst (setNextState e m r x l)) \<noteq> [] \<longleftrightarrow>
      State.State (fst (setNextState e m r x l)) \<noteq> Result.State x \<and>
      Result.State x \<noteq> Normal \<and> Result.State x \<noteq> Alerting) \<and>
   (StateReason (fst (setNextState e m r x l)) \<noteq> [] \<longrightarrow>
      StateReason (fst (setNextState e m r x l)) = State_String (Result.State x))"
  by (simp add: setNextState_def Let_def State_String_nonempty)

text \<open>
  On the sample parameters, with a rule that maps missing data to Normal: a NoData result
  leaves the instance Normal with the reason "NoData".
\<close>

theorem state_reason_law_witness:
  "StateReason (fst (setNextState (sampleEnv\<lparr>resultNoData := enterState Normal 0\<rparr>)
      emptyManager sampleRule (sampleResult NoData 100) [])) = ''NoData''"
proof -
  let ?e = "sampleEnv\<lparr>resultNoData := enterState Normal 0\<rparr>"
  have a: "State.State (fst (setNextState ?e emptyManager sampleRule (sampleResult NoData 100) [])) = Normal"
    by code_simp
  have b: "Result.State (sampleResult NoData 100) = NoData"
    by code_simp
  show ?thesis
    using a b state_reason_law [of ?e emptyManager sampleRule "sampleResult NoData 100" "[]"]
    by simp
qed



text \<open>
  C9. When an evaluation result has state Pending, the switch of \<open>setNextState\<close> applies no
  transition function: the state of the instance, its \<open>StartsAt\<close> and its \<open>EndsAt\<close> are
  what they were before, while the bookkeeping fields are still written: the last
  evaluation time, the evaluation duration and the history, which receives the record of
  the evaluation and is trimmed.
\<close>

theorem pending_frame:
  assumes "Result.State x = Pending"
  shows "applyResult e a r x = a
    \<and> State.State (fst (setNextState e m r x l)) = State.State (instanceBefore e m r x l)
    \<and> StartsAt (fst (setNextState e m r x l)) = StartsAt (instanceBefore e m r x l)
    \<and> EndsAt (fst (setNextState e m r x l)) = EndsAt (instanceBefore e m r x l)
    \<and> LastEvaluationTime (fst (setNextState e m r x l)) = EvaluatedAt x
    \<and> State.EvaluationDuration (fst (setNextState e m r x l)) = Result.EvaluationDuration x
    \<and> Results (fst (setNextState e m r x l)) =
        trimResults e r (Results (instanceBefore e m r x l) @ [evaluationOf e r x])"
  using assms
  by (simp add: setNextState_def instanceBefore_def Let_def TrimResults_def applyResult_def
      evaluationOf_def)

text \<open>
  On the sample parameters: an Alerting instance that started at 100 and receives a Pending
  result at 200 is still Alerting since 100, and was last evaluated at 200.
\<close>

theorem pending_frame_witness:
  "Result.State (sampleResult Pending 200) = Pending
   \<and> State.State (fst (setNextState sampleEnv (managerWith [sampleState ''host=a;'' Alerting 100])
        sampleRule (sampleResult Pending 200) [])) = Alerting
   \<and> StartsAt (fst (setNextState sampleEnv (managerWith [sampleState ''host=a;'' Alerting 100])
        sampleRule (sampleResult Pending 200) [])) = 100
   \<and> EndsAt (fst (setNextState sampleEnv (managerWith [sampleState ''host=a;'' Alerting 100])
        sampleRule (sampleResult Pending 200) [])) = 100
   \<and> LastEvaluationTime (fst (setNextState sampleEnv (managerWith [sampleState ''host=a;'' Alerting 100])
        sampleRule (sampleResult Pending 200) [])) = 200"
proof -
  let ?m = "managerWith [sampleState ''host=a;'' Alerting 100]"
  have h: "Result.State (sampleResult Pending 200) = Pending"
    by (simp add: sampleResult_def)
  have b: "State.State (instanceBefore sampleEnv ?m sampleRule (sampleResult Pending 200) []) = Alerting"
    "StartsAt (instanceBefore sampleEnv ?m sampleRule (sampleResult Pending 200) []) = 100"
    "EndsAt (instanceBefore sampleEnv ?m sampleRule (sampleResult Pending 200) []) = 100"
    "EvaluatedAt (sampleResult Pending 200) = 200"
    by code_simp+
  show ?thesis
    using h b pending_frame [OF h, of sampleEnv _ sampleRule ?m "[]"]
    by simp
qed

section \<open>Properties of \<open>Warm\<close>\<close>

lemma logIfErr_proj [simp]:
  "cache (logIfErr msg err m) = cache m"
  "storeCalls (logIfErr msg err m) = storeCalls m"
  "imageCalls (logIfErr msg err m) = imageCalls m"
  by (simp_all add: logIfErr_def logError_def split: option.splits)

lemma logError_proj [simp]:
  "cache (logError msg m) = cache m"
  "storeCalls (logError msg m) = storeCalls m"
  "imageCalls (logError msg m) = imageCalls m"
  by (simp_all add: logError_def)

lemma ruleByUID_fold_None:
  "fold (\<lambda>rule mp. mp(UID rule \<mapsto> rule)) rules mp0 uid = None \<longleftrightarrow>
     mp0 uid = None \<and> (\<forall>rule\<in>set rules. UID rule \<noteq> uid)"
  by (induction rules arbitrary: mp0) auto

lemma ruleByUID_fold_Some:
  "fold (\<lambda>rule mp. mp(UID rule \<mapsto> rule)) rules mp0 uid = Some r \<Longrightarrow>
     (r \<in> set rules \<and> UID r = uid) \<or> mp0 uid = Some r"
proof (induction rules arbitrary: mp0)
  case Nil
  then show ?case by simp
next
  case (Cons a rules)
  from Cons.IH [of "mp0(UID a \<mapsto> a)"] Cons.prems show ?case
    by (auto split: if_splits)
qed

lemma ruleByUID_of_None:
  "ruleByUID_of rules uid = None \<longleftrightarrow> (\<forall>rule\<in>set rules. UID rule \<noteq> uid)"
  by (simp add: ruleByUID_of_def ruleByUID_fold_None)

lemma ruleByUID_of_Some:
  "ruleByUID_of rules uid = Some r \<Longrightarrow> r \<in> set rules \<and> UID r = uid"
  using ruleByUID_fold_Some [of rules Map.empty uid r] by (simp add: ruleByUID_of_def)

lemma warmEntry_cache [simp]: "cache (snd (warmEntry e rb entry acc)) = cache (snd acc)"
  by (simp add: warmEntry_def Let_def split: option.splits)

lemma warmEntry_fold_cache [simp]:
  "cache (snd (fold (warmEntry e rb) entries acc)) = cache (snd acc)"
  by (induction entries arbitrary: acc) simp_all

lemma warmOrg_cache [simp]: "cache (snd (warmOrg e org acc)) = cache (snd acc)"
  by (simp add: warmOrg_def Let_def)

lemma warmOrg_fold_cache [simp]:
  "cache (snd (fold (warmOrg e) orgs acc)) = cache (snd acc)"
  by (induction orgs arbitrary: acc) simp_all

lemma warmEntry_storeCalls [simp]: "storeCalls (snd (warmEntry e rb entry acc)) = storeCalls (snd acc)"
  by (simp add: warmEntry_def Let_def split: option.splits)

lemma warmEntry_fold_storeCalls [simp]:
  "storeCalls (snd (fold (warmEntry e rb) entries acc)) = storeCalls (snd acc)"
  by (induction entries arbitrary: acc) simp_all

lemma warmEntry_states:
  assumes "s \<in> set (fst (warmEntry e (ruleByUID_of rules) entry acc))"
  shows "s \<in> set (fst acc) \<or>
     (\<exists>rule\<in>set rules. UID rule = RuleUID entry \<and>
        s = stateForEntry entry rule (fst (StringKey e (AlertInstance.Labels entry))))"
  using assms
  by (auto simp: warmEntry_def Let_def split: option.splits dest: ruleByUID_of_Some)

lemma warmEntry_fold_states:
  assumes "s \<in> set (fst (fold (warmEntry e (ruleByUID_of rules)) entries acc))"
  shows "s \<in> set (fst acc) \<or>
     (\<exists>entry\<in>set entries. \<exists>rule\<in>set rules. UID rule = RuleUID entry \<and>
        s = stateForEntry entry rule (fst (StringKey e (AlertInstance.Labels entry))))"
  using assms
proof (induction entries arbitrary: acc)
  case Nil
  then show ?case by simp
next
  case (Cons entry entries)
  from Cons.prems have "s \<in> set (fst (fold (warmEntry e (ruleByUID_of rules)) entries
      (warmEntry e (ruleByUID_of rules) entry acc)))"
    by simp
  from Cons.IH [OF this] show ?case
    using warmEntry_states [of s e rules entry acc] by auto
qed

lemma warmOrg_states:
  assumes "s \<in> set (fst (warmOrg e orgId acc))"
  shows "s \<in> set (fst acc) \<or> warmedFrom e [orgId] s"
proof -
  let ?n = "Suc (storeCalls (snd acc))"
  from assms have "s \<in> set (fst (fold (warmEntry e (ruleByUID_of (fst (ListAlertRules e (storeCalls (snd acc)) orgId))))
      (fst (ListAlertInstances e ?n orgId))
      (fst acc, logIfErr ''unable to fetch previous state'' (snd (ListAlertInstances e ?n orgId))
         ((logIfErr ''unable to fetch previous state'' (snd (ListAlertRules e (storeCalls (snd acc)) orgId))
            ((snd acc)\<lparr>storeCalls := Suc (storeCalls (snd acc))\<rparr>))\<lparr>storeCalls := Suc ?n\<rparr>))))"
    by (simp add: warmOrg_def Let_def)
  from warmEntry_fold_states [OF this] show ?thesis
    unfolding warmedFrom_def by auto
qed

lemma warmedFrom_mono: "warmedFrom e orgs s \<Longrightarrow> set orgs \<subseteq> set orgs' \<Longrightarrow> warmedFrom e orgs' s"
  unfolding warmedFrom_def by blast

lemma warmOrg_fold_states:
  assumes "s \<in> set (fst (fold (warmOrg e) orgs acc))"
  shows "s \<in> set (fst acc) \<or> warmedFrom e orgs s"
  using assms
proof (induction orgs arbitrary: acc)
  case Nil
  then show ?case by simp
next
  case (Cons orgId orgs)
  from Cons.prems have "s \<in> set (fst (fold (warmOrg e) orgs (warmOrg e orgId acc)))"
    by simp
  from Cons.IH [OF this] have "s \<in> set (fst (warmOrg e orgId acc)) \<or> warmedFrom e orgs s" .
  then show ?case
  proof
    assume "s \<in> set (fst (warmOrg e orgId acc))"
    from warmOrg_states [OF this] show ?thesis
      by (auto intro: warmedFrom_mono)
  next
    assume "warmedFrom e orgs s"
    then show ?thesis by (auto intro: warmedFrom_mono)
  qed
qed

lemma set_states_cache:
  "cache (fold (\<lambda>s m'. set_state m' s) ss m) = fold (\<lambda>s c. cache_set c s) ss (cache m)"
  by (induction ss arbitrary: m) (simp_all add: set_state_def)

lemma cache_set_member:
  "kv \<in> set (cache_set c s) \<Longrightarrow> kv \<in> set c \<or> kv = (stateKey s, s)"
  unfolding cache_set_def
  by (induction c) (auto split: if_splits)

lemma cache_set_fold_member:
  "kv \<in> set (fold (\<lambda>s c. cache_set c s) ss c) \<Longrightarrow>
     kv \<in> set c \<or> (snd kv \<in> set ss \<and> fst kv = stateKey (snd kv))"
proof (induction ss arbitrary: c)
  case Nil
  then show ?case by simp
next
  case (Cons s ss)
  from Cons.prems have "kv \<in> set (fold (\<lambda>s c. cache_set c s) ss (cache_set c s))" by simp
  from Cons.IH [OF this] show ?case
    by (auto dest: cache_set_member)
qed

lemma Warm_provenance:
  assumes "kv \<in> set (cache (Warm e m))"
  shows "fst kv = stateKey (snd kv) \<and> warmedFrom e (fst (FetchOrgIds e (storeCalls m))) (snd kv)"
proof -
  let ?m1 = "logIfErr ''unable to fetch orgIds'' (snd (FetchOrgIds e (storeCalls m)))
               ((ResetAllStates m)\<lparr>storeCalls := Suc (storeCalls m)\<rparr>)"
  let ?acc = "fold (warmOrg e) (fst (FetchOrgIds e (storeCalls m))) ([], ?m1)"
  have W: "Warm e m = fold (\<lambda>s m'. set_state m' s) (fst ?acc) (snd ?acc)"
    by (simp add: Warm_def Let_def ResetAllStates_def)
  have empty: "cache (snd ?acc) = []"
    by (simp add: ResetAllStates_def cache_reset_def)
  from assms have "kv \<in> set (fold (\<lambda>s c. cache_set c s) (fst ?acc) [])"
    by (simp only: W set_states_cache empty)
  from cache_set_fold_member [OF this]
  have "snd kv \<in> set (fst ?acc)" and key: "fst kv = stateKey (snd kv)" by auto
  from warmOrg_fold_states [OF this(1)] key show ?thesis by simp
qed







text \<open>
  C10. During \<open>Warm\<close>, a persisted instance whose \<open>RuleUID\<close> matches no rule that the rule
  store returned for the organisation at hand is skipped: no state is reconstructed for it
  and the cache is not touched. Hence every entry of the cache after \<open>Warm\<close> is the state
  of a listed instance whose rule was listed for the same organisation.
\<close>

theorem warm_skips_orphans:
  "((\<forall>rule\<in>set rules. UID rule \<noteq> RuleUID entry) \<longrightarrow>
      fst (warmEntry e (ruleByUID_of rules) entry acc) = fst acc \<and>
      cache (snd (warmEntry e (ruleByUID_of rules) entry acc)) = cache (snd acc))
   \<and> (\<forall>kv\<in>set (cache (Warm e m)).
        fst kv = stateKey (snd kv) \<and>
        (\<exists>n orgId entry rule.
           orgId \<in> set (fst (FetchOrgIds e (storeCalls m))) \<and>
           rule \<in> set (fst (ListAlertRules e n orgId)) \<and>
           entry \<in> set (fst (ListAlertInstances e (Suc n) orgId)) \<and>
           UID rule = RuleUID entry \<and>
           snd kv = stateForEntry entry rule (fst (StringKey e (AlertInstance.Labels entry)))))"
proof -
  have skip: "fst (warmEntry e (ruleByUID_of rules) entry acc) = fst acc \<and>
      cache (snd (warmEntry e (ruleByUID_of rules) entry acc)) = cache (snd acc)"
    if "\<forall>rule\<in>set rules. UID rule \<noteq> RuleUID entry"
  proof -
    from that have "ruleByUID_of rules (RuleUID entry) = None"
      by (simp add: ruleByUID_of_None)
    then show ?thesis by (simp add: warmEntry_def)
  qed
  have prov: "\<forall>kv\<in>set (cache (Warm e m)).
        fst kv = stateKey (snd kv) \<and>
        (\<exists>n orgId entry rule.
           orgId \<in> set (fst (FetchOrgIds e (storeCalls m))) \<and>
           rule \<in> set (fst (ListAlertRules e n orgId)) \<and>
           entry \<in> set (fst (ListAlertInstances e (Suc n) orgId)) \<and>
           UID rule = RuleUID entry \<and>
           snd kv = stateForEntry entry rule (fst (StringKey e (AlertInstance.Labels entry))))"
    using Warm_provenance [of _ e m] unfolding warmedFrom_def by blast
  show ?thesis using skip prov by blast
qed


text \<open>
  On the sample parameters, with one instance of a rule that no longer exists and one
  instance of the sample rule: the first is skipped, and the cache holds one state, of
  the sample rule.
\<close>

theorem warm_skips_orphans_witness:
  "fst (warmEntry (warmEnv [sampleInstance InstanceStateFiring ''rule-2'',
        sampleInstance InstanceStateNormal ''rule-1''])
      (ruleByUID_of [sampleRule]) (sampleInstance InstanceStateFiring ''rule-2'')
      ([], emptyManager)) = []
   \<and> map (\<lambda>kv. AlertRuleUID (snd kv))
       (cache (Warm (warmEnv [sampleInstance InstanceStateFiring ''rule-2'',
          sampleInstance InstanceStateNormal ''rule-1'']) emptyManager)) = [''rule-1'']"
proof -
  let ?orphan = "sampleInstance InstanceStateFiring ''rule-2''"
  let ?e = "warmEnv [?orphan, sampleInstance InstanceStateNormal ''rule-1'']"
  note inst = warm_skips_orphans [where rules = "[sampleRule]" and entry = ?orphan and e = ?e
      and acc = "([], emptyManager)" and m = emptyManager]
  have h: "\<forall>rule\<in>set [sampleRule]. UID rule \<noteq> RuleUID ?orphan"
    by (simp add: sampleRule_def sampleInstance_def)
  from inst h have skipped: "fst (warmEntry ?e (ruleByUID_of [sampleRule]) ?orphan ([], emptyManager)) = []"
    by simp
  have rules: "fst (ListAlertRules ?e n orgId) = [sampleRule]" for n orgId
    by (simp add: warmEnv_def sampleEnv_def)
  have uid: "AlertRuleUID (snd kv) = ''rule-1''" if "kv \<in> set (cache (Warm ?e emptyManager))" for kv
  proof -
    from inst that obtain n orgId entry rule where
      "rule \<in> set (fst (ListAlertRules ?e n orgId))" "UID rule = RuleUID entry"
      "snd kv = stateForEntry entry rule (fst (StringKey ?e (AlertInstance.Labels entry)))"
      by blast
    then show ?thesis
      by (simp add: rules stateForEntry_def sampleRule_def)
  qed
  have "length (cache (Warm ?e emptyManager)) = 1"
    by code_simp
  then obtain kv where one: "cache (Warm ?e emptyManager) = [kv]"
    by (cases "cache (Warm ?e emptyManager)") auto
  with uid [of kv] have "map (\<lambda>kv. AlertRuleUID (snd kv)) (cache (Warm ?e emptyManager)) = [''rule-1'']"
    by simp
  with skipped show ?thesis by blast
qed

section \<open>Properties of \<open>ResetStateByRuleUID\<close>\<close>

lemma removeByRuleUID_states:
  "fst (cache_removeByRuleUID c orgID uid) = cache_getStatesForRuleUID c orgID uid"
  by (simp add: cache_removeByRuleUID_def cache_getStatesForRuleUID_def)

lemma ResetStateByRuleUID_fst:
  "fst (ResetStateByRuleUID e m orgID uid) = cache_getStatesForRuleUID (cache m) orgID uid"
  by (simp add: ResetStateByRuleUID_def Let_def removeByRuleUID_states)

lemma ResetStateByRuleUID_cache:
  "cache (snd (ResetStateByRuleUID e m orgID uid)) = filter (\<lambda>kv. \<not> ofRule orgID uid kv) (cache m)"
  by (simp add: ResetStateByRuleUID_def Let_def cache_removeByRuleUID_def)

lemma ResetStateByRuleUID_trace:
  "trace (snd (ResetStateByRuleUID e m orgID uid)) =
     trace m @
       (if fst (ResetStateByRuleUID e m orgID uid) = [] then []
        else CallDeleteAlertInstancesByRule orgID uid #
          (case DeleteAlertInstancesByRule e (storeCalls m) orgID uid of
             None \<Rightarrow> []
           | Some err \<Rightarrow> [LogError ''failed to delete states that belong to a rule from database'']))"
  by (simp add: ResetStateByRuleUID_def Let_def logIfErr_def logError_def split: option.splits)

text \<open>
  C8. \<open>ResetStateByRuleUID\<close> removes every cached state of the given rule and returns
  exactly the removed states; the other entries of the cache stay. Whatever the instance
  store answers to \<open>DeleteAlertInstancesByRule\<close>, the eviction and the returned list are
  the same (\<open>e'\<close> is any other behaviour of the collaborators); a failure is logged.
\<close>

theorem reset_by_rule:
  "fst (ResetStateByRuleUID e m orgID uid) = cache_getStatesForRuleUID (cache m) orgID uid
   \<and> cache (snd (ResetStateByRuleUID e m orgID uid)) = filter (\<lambda>kv. \<not> ofRule orgID uid kv) (cache m)
   \<and> GetStatesForRuleUID (snd (ResetStateByRuleUID e m orgID uid)) orgID uid = []
   \<and> fst (ResetStateByRuleUID e' m orgID uid) = fst (ResetStateByRuleUID e m orgID uid)
   \<and> cache (snd (ResetStateByRuleUID e' m orgID uid)) = cache (snd (ResetStateByRuleUID e m orgID uid))
   \<and> (fst (ResetStateByRuleUID e m orgID uid) \<noteq> [] \<and>
      DeleteAlertInstancesByRule e (storeCalls m) orgID uid \<noteq> None \<longrightarrow>
        trace (snd (ResetStateByRuleUID e m orgID uid)) =
          trace m @ [CallDeleteAlertInstancesByRule orgID uid,
                     LogError ''failed to delete states that belong to a rule from database''])"
  by (auto simp: ResetStateByRuleUID_fst ResetStateByRuleUID_cache ResetStateByRuleUID_trace
      GetStatesForRuleUID_def cache_getStatesForRuleUID_def)

text \<open>
  On the sample parameters, with an instance store that fails: both states of the rule are
  returned, the cache is empty and the failure is logged.
\<close>

theorem reset_by_rule_witness:
  "map CacheID (fst (ResetStateByRuleUID (sampleEnv\<lparr>DeleteAlertInstancesByRule := (\<lambda>n orgID uid. Some ''down'')\<rparr>)
      (managerWith [sampleState ''a'' Alerting 100, sampleState ''b'' Normal 100]) 1 ''rule-1'')) = [''a'', ''b'']
   \<and> cache (snd (ResetStateByRuleUID (sampleEnv\<lparr>DeleteAlertInstancesByRule := (\<lambda>n orgID uid. Some ''down'')\<rparr>)
      (managerWith [sampleState ''a'' Alerting 100, sampleState ''b'' Normal 100]) 1 ''rule-1'')) = []
   \<and> trace (snd (ResetStateByRuleUID (sampleEnv\<lparr>DeleteAlertInstancesByRule := (\<lambda>n orgID uid. Some ''down'')\<rparr>)
      (managerWith [sampleState ''a'' Alerting 100, sampleState ''b'' Normal 100]) 1 ''rule-1'')) =
       [CallDeleteAlertInstancesByRule 1 ''rule-1'',
        LogError ''failed to delete states that belong to a rule from database'']"
proof -
  let ?e = "sampleEnv\<lparr>DeleteAlertInstancesByRule := (\<lambda>n orgID uid. Some ''down'')\<rparr>"
  let ?m = "managerWith [sampleState ''a'' Alerting 100, sampleState ''b'' Normal 100]"
  note inst = reset_by_rule [of ?e ?m 1 "''rule-1''" ?e]
  have c: "cache ?m = [((1, ''rule-1'', ''a''), sampleState ''a'' Alerting 100),
      ((1, ''rule-1'', ''b''), sampleState ''b'' Normal 100)]"
    by (simp add: managerWith_def emptyManager_def set_state_def cache_set_def stateKey_def sampleState_def)
  have t: "trace ?m = []"
    by (simp add: managerWith_def emptyManager_def set_state_def)
  have known: "cache_getStatesForRuleUID (cache ?m) 1 ''rule-1'' =
      [sampleState ''a'' Alerting 100, sampleState ''b'' Normal 100]"
    by (simp add: c cache_getStatesForRuleUID_def ofRule_def)
  have rest: "filter (\<lambda>kv. \<not> ofRule 1 ''rule-1'' kv) (cache ?m) = []"
    by (simp add: c ofRule_def)
  have fails: "DeleteAlertInstancesByRule ?e (storeCalls ?m) 1 ''rule-1'' \<noteq> None"
    by simp
  show ?thesis
    using inst known rest fails t by (simp add: sampleState_def)
qed


section \<open>Properties of \<open>staleResultsHandler\<close>\<close>

lemma requestImage_proj [simp]:
  "cache (snd (requestImage e r i m)) = cache m"
  "imageCalls (snd (requestImage e r i m)) = Suc (imageCalls m)"
  "storeCalls (snd (requestImage e r i m)) = storeCalls m"
  by (simp_all add: requestImage_def Let_def logWarn_def split: option.splits)

lemma requestImage_trace_deletes [simp]:
  "filter isDeleteInstance (trace (snd (requestImage e r i m))) = filter isDeleteInstance (trace m)"
  by (simp add: requestImage_def Let_def logWarn_def split: option.splits)

lemma requestImage_None:
  "fst (requestImage e r None m) =
     (if noImage (takeImage e (imageCalls m) r) then None else fst (takeImage e (imageCalls m) r))"
  by (auto simp: requestImage_def Let_def noImage_def split: option.splits)

lemma logIfErr_trace_deletes [simp]:
  "filter isDeleteInstance (trace (logIfErr msg err m)) = filter isDeleteInstance (trace m)"
  by (simp add: logIfErr_def logError_def split: option.splits)

lemma staleStep_skip:
  "\<not> staleAbsent r st t s \<Longrightarrow> staleStep e r st t s acc = acc"
  by (cases acc) (auto simp: staleStep_def staleAbsent_def)

lemma staleStep_cache:
  "cache (snd (snd (staleStep e r st t s acc))) =
     (if staleAbsent r st t s then AList.delete (stateKey s) (cache (snd (snd acc)))
      else cache (snd (snd acc)))"
  by (cases acc)
    (simp add: staleStep_def staleAbsent_def Let_def cache_deleteEntry_def stateKey_def)

lemma staleStep_deletes:
  "filter isDeleteInstance (trace (snd (snd (staleStep e r st t s acc)))) =
     filter isDeleteInstance (trace (snd (snd acc))) @
       (if staleAbsent r st t s then [deleteCallOf e s] else [])"
  by (cases acc)
    (simp add: staleStep_def staleAbsent_def Let_def deleteCallOf_def)

lemma staleStep_resolved:
  "map (\<lambda>x. x\<lparr>Image := None\<rparr>) (fst (snd (staleStep e r st t s acc))) =
     map (\<lambda>x. x\<lparr>Image := None\<rparr>) (fst (snd acc)) @
       (if staleAbsent r st t s \<and> State.State s = Alerting
        then [(Resolve s StateReasonMissingSeries t)\<lparr>Image := None\<rparr>] else [])"
  by (cases acc)
    (simp add: staleStep_def staleAbsent_def Let_def)


lemma sweep_cache:
  "cache (snd (snd (fold (staleStep e r st t) known acc))) =
     filter (\<lambda>kv. fst kv \<notin> stateKey ` {s \<in> set known. staleAbsent r st t s}) (cache (snd (snd acc)))"
proof (induction known arbitrary: acc)
  case Nil
  then show ?case by simp
next
  case (Cons s known)
  have del: "AList.delete k c = filter (\<lambda>kv. fst kv \<noteq> k) c" for k and c :: "'a cache"
    by (induction c) auto
  show ?case
    by (auto simp: Cons.IH staleStep_cache del intro!: filter_cong)
qed

lemma sweep_deletes:
  "filter isDeleteInstance (trace (snd (snd (fold (staleStep e r st t) known acc)))) =
     filter isDeleteInstance (trace (snd (snd acc))) @
       map (deleteCallOf e) (filter (staleAbsent r st t) known)"
  by (induction known arbitrary: acc) (simp_all add: staleStep_deletes)

lemma sweep_resolved:
  "map (\<lambda>x. x\<lparr>Image := None\<rparr>) (fst (snd (fold (staleStep e r st t) known acc))) =
     map (\<lambda>x. x\<lparr>Image := None\<rparr>) (fst (snd acc)) @
       map (\<lambda>s. (Resolve s StateReasonMissingSeries t)\<lparr>Image := None\<rparr>)
         (filter (\<lambda>s. staleAbsent r st t s \<and> State.State s = Alerting) known)"
  by (induction known arbitrary: acc) (simp_all add: staleStep_resolved)

lemma cache_wf_key: "cache_wf c \<Longrightarrow> (k, s) \<in> set c \<Longrightarrow> k = stateKey s"
  by (auto simp: cache_wf_def list_all_iff)

lemma cache_wf_unique: "cache_wf c \<Longrightarrow> (k, s) \<in> set c \<Longrightarrow> (k, s') \<in> set c \<Longrightarrow> s = s'"
  by (auto simp: cache_wf_def dest: eq_key_imp_eq_value)

lemma known_member:
  "s \<in> set (cache_getStatesForRuleUID c orgID uid) \<longleftrightarrow>
     (\<exists>k. (k, s) \<in> set c \<and> fst k = orgID \<and> fst (snd k) = uid)"
  by (force simp: cache_getStatesForRuleUID_def ofRule_def)

lemma known_distinct:
  assumes "cache_wf c"
  shows "distinct (map CacheID (cache_getStatesForRuleUID c orgID uid))"
proof -
  let ?xs = "filter (ofRule orgID uid) c"
  have eq: "map CacheID (map snd ?xs) = map (\<lambda>kv. snd (snd (fst kv))) ?xs"
    using assms by (auto simp: cache_wf_def list_all_iff stateKey_def)
  have d: "distinct (map fst ?xs)"
    using assms by (simp add: cache_wf_def distinct_map_filter)
  have "inj_on (\<lambda>k. snd (snd k)) (set (map fst ?xs))"
    by (auto simp: inj_on_def ofRule_def prod_eq_iff)
  with d have "distinct (map (\<lambda>k. snd (snd k)) (map fst ?xs))"
    unfolding distinct_map [of "\<lambda>k. snd (snd k)" "map fst ?xs"] by blast
  then have d2: "distinct (map (\<lambda>kv. snd (snd (fst kv))) ?xs)"
    by (simp add: comp_def)
  show ?thesis
    unfolding cache_getStatesForRuleUID_def eq by (rule d2)
qed

lemma map_of_filter_wf:
  assumes "distinct (map fst c)" "(k, s) \<in> set c"
  shows "map_of (filter P c) k = (if P (k, s) then Some s else None)"
proof (cases "P (k, s)")
  case True
  with assms have "(k, s) \<in> set (filter P c)" "distinct (map fst (filter P c))"
    by (simp_all add: distinct_map_filter)
  then show ?thesis using True by simp
next
  case False
  have "k \<notin> fst ` set (filter P c)"
  proof
    assume "k \<in> fst ` set (filter P c)"
    then obtain s' where "(k, s') \<in> set c" "P (k, s')" by auto
    with assms have "s' = s" by (auto dest: eq_key_imp_eq_value)
    with \<open>P (k, s')\<close> False show False by simp
  qed
  then show ?thesis using False by (simp add: map_of_eq_None_iff)
qed

lemma count_distinct_filter:
  assumes "distinct (map f xs)" "x \<in> set xs"
  shows "length (filter (\<lambda>y. f y = f x) (filter Q xs)) = (if Q x then 1 else 0)"
  using assms
proof (induction xs)
  case Nil
  then show ?case by simp
next
  case (Cons a xs)
  show ?case
  proof (cases "a = x")
    case True
    with Cons.prems have "f x \<notin> f ` set xs" by simp
    then have "\<forall>y\<in>set xs. f y \<noteq> f x" by (metis imageI)
    then have "filter (\<lambda>y. f y = f x) (filter Q xs) = []"
      by (auto simp: filter_empty_conv)
    with True show ?thesis by simp
  next
    case False
    with Cons.prems have rest: "distinct (map f xs)" "x \<in> set xs" and fa: "f a \<noteq> f x"
      by auto
    have "length (filter (\<lambda>y. f y = f x) (filter Q (a # xs))) =
        length (filter (\<lambda>y. f y = f x) (filter Q xs))"
      using fa by simp
    also have "\<dots> = (if Q x then 1 else 0)"
      by (rule Cons.IH [OF rest])
    finally show ?thesis .
  qed
qed

lemma isItStale_in_range:
  assumes "- 4611686018 \<le> sint i" "sint i \<le> 4611686018"
  shows "isItStale t lastEval i \<longleftrightarrow> lastEval + 2 * sint i * 1000000000 \<le> t"
proof -
  have two: "sint (2 * i) = 2 * sint i"
  proof -
    have "sint (2 * i) = signed_take_bit 63 (2 * sint i)"
      by (simp add: sint_word_mult)
    also have "\<dots> = 2 * sint i"
      using assms by (intro signed_take_bit_int_eq_self) simp_all
    finally show ?thesis .
  qed
  have gen: "sint (w * Second) = signed_take_bit 63 (sint w * 1000000000)" for w :: "64 word"
    by (simp add: sint_word_mult Second_def)
  have "sint (2 * i * Second) = signed_take_bit 63 (2 * sint i * 1000000000)"
    using gen [of "2 * i"] by (simp only: two)
  also have "\<dots> = 2 * sint i * 1000000000"
    using assms by (intro signed_take_bit_int_eq_self) simp_all
  finally show ?thesis
    by (auto simp: isItStale_def After_def Add_def)
qed

lemma stale_overflow: "isItStale 0 0 4611686019"
  by (simp add: isItStale_def After_def Add_def Second_def)


lemma staleResultsHandler_fold:
  "staleResultsHandler e m r st t =
     snd (fold (staleStep e r st t) (cache_getStatesForRuleUID (cache m) (AlertRule.OrgID r) (UID r))
       (None, [], m))"
  by (simp add: staleResultsHandler_def GetStatesForRuleUID_def)

lemma handler_cache:
  "cache (snd (staleResultsHandler e m r st t)) =
     filter (\<lambda>kv. fst kv \<notin> stateKey `
         {s \<in> set (cache_getStatesForRuleUID (cache m) (AlertRule.OrgID r) (UID r)). staleAbsent r st t s})
       (cache m)"
  by (simp add: staleResultsHandler_fold sweep_cache)

lemma handler_deletes:
  "filter isDeleteInstance (trace (snd (staleResultsHandler e m r st t))) =
     filter isDeleteInstance (trace m) @
       map (deleteCallOf e)
         (filter (staleAbsent r st t) (cache_getStatesForRuleUID (cache m) (AlertRule.OrgID r) (UID r)))"
  by (simp add: staleResultsHandler_fold sweep_deletes)

lemma handler_resolved:
  "map (\<lambda>x. x\<lparr>Image := None\<rparr>) (fst (staleResultsHandler e m r st t)) =
     map (\<lambda>s. (Resolve s StateReasonMissingSeries t)\<lparr>Image := None\<rparr>)
       (filter (\<lambda>s. staleAbsent r st t s \<and> State.State s = Alerting)
         (cache_getStatesForRuleUID (cache m) (AlertRule.OrgID r) (UID r)))"
  by (simp add: staleResultsHandler_fold sweep_resolved)

lemma handler_resolved_fields:
  fixes e :: "'v env"
  defines "known \<equiv> \<lambda>(m :: 'v Manager) r st t.
     filter (\<lambda>s. staleAbsent r st t s \<and> State.State s = Alerting)
       (cache_getStatesForRuleUID (cache m) (AlertRule.OrgID r) (UID r))"
  shows "map CacheID (fst (staleResultsHandler e m r st t)) = map CacheID (known m r st t)"
    and "map State.State (fst (staleResultsHandler e m r st t)) = map (\<lambda>s. Normal) (known m r st t)"
    and "map Resolved (fst (staleResultsHandler e m r st t)) = map (\<lambda>s. True) (known m r st t)"
    and "map StateReason (fst (staleResultsHandler e m r st t)) =
           map (\<lambda>s. StateReasonMissingSeries) (known m r st t)"
proof -
  note eq = handler_resolved [of e m r st t]
  show "map CacheID (fst (staleResultsHandler e m r st t)) = map CacheID (known m r st t)"
    using arg_cong [OF eq, of "map CacheID"] by (simp add: comp_def Resolve_def known_def)
  show "map State.State (fst (staleResultsHandler e m r st t)) = map (\<lambda>s. Normal) (known m r st t)"
    using arg_cong [OF eq, of "map State.State"] by (simp add: comp_def Resolve_def known_def)
  show "map Resolved (fst (staleResultsHandler e m r st t)) = map (\<lambda>s. True) (known m r st t)"
    using arg_cong [OF eq, of "map Resolved"] by (simp add: comp_def Resolve_def known_def)
  show "map StateReason (fst (staleResultsHandler e m r st t)) =
           map (\<lambda>s. StateReasonMissingSeries) (known m r st t)"
    using arg_cong [OF eq, of "map StateReason"] by (simp add: comp_def Resolve_def known_def)
qed

lemma map_const_set: "map g xs = map (\<lambda>s. c) ys \<Longrightarrow> x \<in> set xs \<Longrightarrow> g x = c"
proof -
  assume eq: "map g xs = map (\<lambda>s. c) ys" and x: "x \<in> set xs"
  from x have "g x \<in> set (map g xs)" by simp
  with eq have "g x \<in> set (map (\<lambda>s. c) ys)" by simp
  then show "g x = c" by auto
qed

text \<open>
  C1, as amended. Take a rule whose interval \<open>i\<close> is such that twice the interval, in
  nanoseconds, fits a \<open>time.Duration\<close> (at most 4611686018 seconds in absolute value), a
  well-formed cache, and a cached instance of the rule that is absent from the current
  batch. The sweep at time
  \<open>evaluatedAt\<close> deletes the instance from the cache, and asks the instance store to delete
  it, exactly when its \<open>LastEvaluationTime\<close> plus \<open>2 * i\<close> seconds is not after
  \<open>evaluatedAt\<close>; otherwise the instance stays in the cache as it is. The instance appears
  in the returned resolved states exactly when it was deleted and Alerting, and then
  exactly once; every returned resolved state is Normal, marked resolved and has the reason
  "missing series". The store is asked to delete exactly the evicted instances, once each.
\<close>

theorem stale_sweep_law:
  assumes wf: "cache_wf (cache m)"
    and fits: "- 4611686018 \<le> sint (IntervalSeconds r)" "sint (IntervalSeconds r) \<le> 4611686018"
    and cached: "(k, s) \<in> set (cache m)" "fst k = AlertRule.OrgID r" "fst (snd k) = UID r"
    and absent: "st (CacheID s) = None"
    and sweep: "staleResultsHandler e m r st t = (resolved, m')"
  shows "(LastEvaluationTime s + 2 * sint (IntervalSeconds r) * 1000000000 \<le> t
            \<longrightarrow> map_of (cache m') k = None \<and> deleteCallOf e s \<in> set (trace m'))
       \<and> (\<not> LastEvaluationTime s + 2 * sint (IntervalSeconds r) * 1000000000 \<le> t
            \<longrightarrow> map_of (cache m') k = Some s)
       \<and> length (filter (\<lambda>x. CacheID x = CacheID s) resolved) =
            (if LastEvaluationTime s + 2 * sint (IntervalSeconds r) * 1000000000 \<le> t \<and>
                State.State s = Alerting then 1 else 0)
       \<and> (\<forall>x\<in>set resolved. State.State x = Normal \<and> Resolved x \<and> StateReason x = ''missing series'')
       \<and> filter isDeleteInstance (trace m') =
            filter isDeleteInstance (trace m) @
              map (deleteCallOf e)
                (filter (staleAbsent r st t) (GetStatesForRuleUID m (AlertRule.OrgID r) (UID r)))"
proof -
  let ?known = "cache_getStatesForRuleUID (cache m) (AlertRule.OrgID r) (UID r)"
  let ?stale = "LastEvaluationTime s + 2 * sint (IntervalSeconds r) * 1000000000 \<le> t"
  let ?Q = "\<lambda>s. staleAbsent r st t s \<and> State.State s = Alerting"
  from sweep have res: "resolved = fst (staleResultsHandler e m r st t)"
    and m': "m' = snd (staleResultsHandler e m r st t)" by simp_all
  have key: "k = stateKey s"
    using wf cached(1) by (rule cache_wf_key)
  have known: "s \<in> set ?known"
    unfolding known_member using cached by blast
  have stale: "staleAbsent r st t s \<longleftrightarrow> ?stale"
    using absent isItStale_in_range [OF fits] by (simp add: staleAbsent_def)
  have dist: "distinct (map fst (cache m))"
    using wf by (simp add: cache_wf_def)
  have only: "s' = s" if "s' \<in> set ?known" "stateKey s' = k" for s'
  proof -
    from that(1) obtain k' where "(k', s') \<in> set (cache m)"
      unfolding known_member by blast
    with wf that(2) have "(k, s') \<in> set (cache m)" by (auto dest: cache_wf_key)
    with wf cached(1) show ?thesis by (auto dest: cache_wf_unique)
  qed
  have inK: "k \<in> stateKey ` {s' \<in> set ?known. staleAbsent r st t s'} \<longleftrightarrow> ?stale"
  proof
    assume "k \<in> stateKey ` {s' \<in> set ?known. staleAbsent r st t s'}"
    then obtain s' where s': "s' \<in> set ?known" "staleAbsent r st t s'" "stateKey s' = k"
      by blast
    from only [OF s'(1,3)] s'(2) stale show ?stale by simp
  next
    assume ?stale
    with stale have "s \<in> {s' \<in> set ?known. staleAbsent r st t s'}"
      using known by simp
    then show "k \<in> stateKey ` {s' \<in> set ?known. staleAbsent r st t s'}"
      unfolding key by (rule imageI)
  qed
  have lookup: "map_of (cache m') k = (if ?stale then None else Some s)"
    unfolding m' handler_cache
    using map_of_filter_wf [OF dist cached(1)] inK by simp
  have dels: "filter isDeleteInstance (trace m') =
      filter isDeleteInstance (trace m) @ map (deleteCallOf e) (filter (staleAbsent r st t) ?known)"
    unfolding m' by (rule handler_deletes)
  have attempted: "deleteCallOf e s \<in> set (trace m')" if ?stale
  proof -
    from that known stale have "deleteCallOf e s \<in> set (map (deleteCallOf e) (filter (staleAbsent r st t) ?known))"
      by simp
    then have "deleteCallOf e s \<in> set (filter isDeleteInstance (trace m'))"
      by (simp only: dels set_append) blast
    then show ?thesis by simp
  qed
  have "length (filter (\<lambda>x. CacheID x = CacheID s) resolved) =
      length (filter (\<lambda>c. c = CacheID s) (map CacheID resolved))"
    by (simp add: filter_map comp_def)
  also have "\<dots> = length (filter (\<lambda>c. c = CacheID s) (map CacheID (filter ?Q ?known)))"
    by (simp only: res handler_resolved_fields(1))
  also have "\<dots> = length (filter (\<lambda>y. CacheID y = CacheID s) (filter ?Q ?known))"
    by (simp add: filter_map comp_def)
  also have "\<dots> = (if ?Q s then 1 else 0)"
    by (rule count_distinct_filter [OF known_distinct [OF wf] known])
  finally have count: "length (filter (\<lambda>x. CacheID x = CacheID s) resolved) =
      (if ?stale \<and> State.State s = Alerting then 1 else 0)"
    by (simp add: stale)
  have fields: "State.State x = Normal \<and> Resolved x \<and> StateReason x = ''missing series''"
    if "x \<in> set resolved" for x
    using that map_const_set [OF handler_resolved_fields(2) [of e m r st t], of x]
      map_const_set [OF handler_resolved_fields(3) [of e m r st t], of x]
      map_const_set [OF handler_resolved_fields(4) [of e m r st t], of x]
    by (simp add: res StateReasonMissingSeries_def)
  have d1: "?stale \<longrightarrow> map_of (cache m') k = None \<and> deleteCallOf e s \<in> set (trace m')"
    using lookup attempted by simp
  have d2: "\<not> ?stale \<longrightarrow> map_of (cache m') k = Some s"
    using lookup by simp
  have d4: "\<forall>x\<in>set resolved. State.State x = Normal \<and> Resolved x \<and> StateReason x = ''missing series''"
    using fields by blast
  have d5: "filter isDeleteInstance (trace m') =
      filter isDeleteInstance (trace m) @
        map (deleteCallOf e)
          (filter (staleAbsent r st t) (GetStatesForRuleUID m (AlertRule.OrgID r) (UID r)))"
    unfolding GetStatesForRuleUID_def by (rule dels)
  from d1 d2 count d4 d5 show ?thesis by (intro conjI)
qed


text \<open>
  The scenario of the spec on the sample parameters: the interval is 10 seconds, the
  instance was last evaluated at 0 in Alerting; the sweep at 25 seconds deletes it and
  resolves it once, the sweep at 15 seconds keeps it.
\<close>

theorem stale_sweep_law_witness:
  "map_of (cache (snd (staleResultsHandler sampleEnv (managerWith [sampleState ''a'' Alerting 0])
       sampleRule Map.empty 25000000000))) (1, ''rule-1'', ''a'') = None
   \<and> length (filter (\<lambda>x. CacheID x = ''a'')
       (fst (staleResultsHandler sampleEnv (managerWith [sampleState ''a'' Alerting 0])
          sampleRule Map.empty 25000000000))) = 1
   \<and> map_of (cache (snd (staleResultsHandler sampleEnv (managerWith [sampleState ''a'' Alerting 0])
       sampleRule Map.empty 15000000000))) (1, ''rule-1'', ''a'') = Some (sampleState ''a'' Alerting 0)"
proof -
  let ?s = "sampleState ''a'' Alerting 0"
  let ?m = "managerWith [?s]"
  let ?k = "(1, ''rule-1'', ''a'') :: CacheKey"
  have c: "cache ?m = [(?k, ?s)]"
    by (simp add: managerWith_def emptyManager_def set_state_def cache_set_def stateKey_def sampleState_def)
  have wf: "cache_wf (cache ?m)"
    unfolding c by (simp add: cache_wf_def stateKey_def sampleState_def)
  have fits: "- 4611686018 \<le> sint (IntervalSeconds sampleRule)" "sint (IntervalSeconds sampleRule) \<le> 4611686018"
    by (simp_all add: sampleRule_def)
  have cached: "(?k, ?s) \<in> set (cache ?m)" "fst ?k = AlertRule.OrgID sampleRule" "fst (snd ?k) = UID sampleRule"
    unfolding c by (simp_all add: sampleRule_def)
  have absent: "Map.empty (CacheID ?s) = None" by simp
  have vals: "LastEvaluationTime ?s = 0" "sint (IntervalSeconds sampleRule) = 10" "State.State ?s = Alerting"
      "CacheID ?s = ''a''"
    by (simp_all add: sampleState_def sampleRule_def)
  note late = stale_sweep_law [where e = sampleEnv and t = 25000000000,
      OF wf fits cached absent prod.collapse [symmetric]]
  note early = stale_sweep_law [where e = sampleEnv and t = 15000000000,
      OF wf fits cached absent prod.collapse [symmetric]]
  from late early show ?thesis
    by (simp add: vals)
qed

text \<open>
  C1 as stated fails for an interval whose double does not fit a \<open>time.Duration\<close>: with
  an interval of 4611686019 seconds the product \<open>2 * intervalSeconds * time.Second\<close> wraps
  to a negative duration, and an instance evaluated at the very time of the sweep is
  deleted although its last evaluation plus twice the interval is after the sweep.
\<close>

theorem stale_sweep_overflow_counterexample:
  "map_of (cache (snd (staleResultsHandler sampleEnv (managerWith [sampleState ''a'' Alerting 100])
       (sampleRule\<lparr>IntervalSeconds := 4611686019\<rparr>) Map.empty 100))) (1, ''rule-1'', ''a'') = None
   \<and> \<not> (LastEvaluationTime (sampleState ''a'' Alerting 100) +
          2 * sint (IntervalSeconds (sampleRule\<lparr>IntervalSeconds := 4611686019\<rparr>)) * 1000000000 \<le> (100 :: int))"
  by code_simp


lemma imagesShared_Nil: "imagesShared e r n n []"
  by (simp add: imagesShared_def)

lemma imagesShared_fail:
  assumes "noImage (takeImage e n r)" "Image x = None" "imagesShared e r (Suc n) n' new"
  shows "imagesShared e r n n' (x # new)"
proof -
  from assms(3) obtain xs ys where new: "new = xs @ ys"
    and none: "\<forall>x\<in>set xs. Image x = None"
    and failed: "\<forall>j<length xs. noImage (takeImage e (Suc n + j) r)"
    and nil: "ys = [] \<longrightarrow> n' = Suc n + length xs"
    and some: "ys \<noteq> [] \<longrightarrow> n' = Suc (Suc n + length xs) \<and>
           (\<exists>i. takeImage e (Suc n + length xs) r = (Some i, None) \<and>
              (\<forall>y\<in>set ys. Image y = Some i))"
    unfolding imagesShared_def by blast
  have failed': "\<forall>j<length (x # xs). noImage (takeImage e (n + j) r)"
  proof (intro allI impI)
    fix j assume "j < length (x # xs)"
    then show "noImage (takeImage e (n + j) r)"
      using assms(1) failed by (cases j) simp_all
  qed
  show ?thesis
    unfolding imagesShared_def
  proof (intro exI conjI)
    show "x # new = (x # xs) @ ys" using new by simp
    show "\<forall>x\<in>set (x # xs). Image x = None" using none assms(2) by simp
    show "\<forall>j<length (x # xs). noImage (takeImage e (n + j) r)" by (rule failed')
    show "ys = [] \<longrightarrow> n' = n + length (x # xs)" using nil by simp
    show "ys \<noteq> [] \<longrightarrow> n' = Suc (n + length (x # xs)) \<and>
           (\<exists>i. takeImage e (n + length (x # xs)) r = (Some i, None) \<and>
              (\<forall>y\<in>set ys. Image y = Some i))" using some by simp
  qed
qed

lemma imagesShared_success:
  assumes "takeImage e n r = (Some i, None)" "\<forall>y\<in>set ys. Image y = Some i" "ys \<noteq> []"
  shows "imagesShared e r n (Suc n) ys"
  unfolding imagesShared_def
proof (intro exI conjI)
  show "ys = [] @ ys" by simp
  show "\<forall>x\<in>set []. Image x = None" by simp
  show "\<forall>j<length []. noImage (takeImage e (n + j) r)" by simp
  show "ys = [] \<longrightarrow> Suc n = n + length []" using assms(3) by simp
  show "ys \<noteq> [] \<longrightarrow> Suc n = Suc (n + length []) \<and>
           (\<exists>i. takeImage e (n + length []) r = (Some i, None) \<and>
              (\<forall>y\<in>set ys. Image y = Some i))" using assms by simp
qed

lemma staleStep_image_other:
  assumes "\<not> (staleAbsent r st t s \<and> State.State s = Alerting)"
  shows "fst (staleStep e r st t s (img, res, m)) = img"
    and "fst (snd (staleStep e r st t s (img, res, m))) = res"
    and "imageCalls (snd (snd (staleStep e r st t s (img, res, m)))) = imageCalls m"
proof -
  have "fst (staleStep e r st t s (img, res, m)) = img \<and>
      fst (snd (staleStep e r st t s (img, res, m))) = res \<and>
      imageCalls (snd (snd (staleStep e r st t s (img, res, m)))) = imageCalls m"
  proof (cases "staleAbsent r st t s")
    case False
    then show ?thesis by (simp add: staleStep_skip)
  next
    case True
    with assms have "State.State s \<noteq> Alerting" by simp
    with True show ?thesis
      by (simp add: staleStep_def staleAbsent_def Let_def)
  qed
  then show "fst (staleStep e r st t s (img, res, m)) = img"
    and "fst (snd (staleStep e r st t s (img, res, m))) = res"
    and "imageCalls (snd (snd (staleStep e r st t s (img, res, m)))) = imageCalls m"
    by simp_all
qed

lemma staleStep_image_have:
  assumes "staleAbsent r st t s" "State.State s = Alerting"
  shows "fst (staleStep e r st t s (Some i, res, m)) = Some i"
    and "\<exists>x. fst (snd (staleStep e r st t s (Some i, res, m))) = res @ [x] \<and> Image x = Some i"
    and "imageCalls (snd (snd (staleStep e r st t s (Some i, res, m)))) = imageCalls m"
  using assms by (simp_all add: staleStep_def staleAbsent_def Let_def)

lemma staleStep_image_ask:
  assumes "staleAbsent r st t s" "State.State s = Alerting"
  shows "fst (staleStep e r st t s (None, res, m)) =
           (if noImage (takeImage e (imageCalls m) r) then None else fst (takeImage e (imageCalls m) r))"
    and "\<exists>x. fst (snd (staleStep e r st t s (None, res, m))) = res @ [x] \<and>
           Image x = (if noImage (takeImage e (imageCalls m) r) then None
                      else fst (takeImage e (imageCalls m) r))"
    and "imageCalls (snd (snd (staleStep e r st t s (None, res, m)))) = Suc (imageCalls m)"
  using assms by (simp_all add: staleStep_def staleAbsent_def Let_def requestImage_None)

lemma sweep_image_have:
  "fst (fold (staleStep e r st t) known (Some i, res, m)) = Some i \<and>
   (\<exists>ys. fst (snd (fold (staleStep e r st t) known (Some i, res, m))) = res @ ys \<and>
      (\<forall>y\<in>set ys. Image y = Some i)) \<and>
   imageCalls (snd (snd (fold (staleStep e r st t) known (Some i, res, m)))) = imageCalls m"
proof (induction known arbitrary: res m)
  case Nil
  then show ?case by simp
next
  case (Cons s known)
  obtain img1 res1 m1 where step: "staleStep e r st t s (Some i, res, m) = (img1, res1, m1)"
    by (cases "staleStep e r st t s (Some i, res, m)") auto
  have "img1 = Some i \<and> (\<exists>zs. res1 = res @ zs \<and> (\<forall>y\<in>set zs. Image y = Some i)) \<and>
      imageCalls m1 = imageCalls m"
  proof (cases "staleAbsent r st t s \<and> State.State s = Alerting")
    case True
    with staleStep_image_have [of r st t s e i res m] step show ?thesis by auto
  next
    case False
    with staleStep_image_other [of r st t s e "Some i" res m] step show ?thesis by auto
  qed
  then obtain zs where img1: "img1 = Some i" and res1: "res1 = res @ zs"
    and zs: "\<forall>y\<in>set zs. Image y = Some i" and calls: "imageCalls m1 = imageCalls m"
    by blast
  from Cons.IH [of res1 m1] obtain ys where
    a: "fst (fold (staleStep e r st t) known (Some i, res1, m1)) = Some i"
    and b: "fst (snd (fold (staleStep e r st t) known (Some i, res1, m1))) = res1 @ ys"
    and c: "\<forall>y\<in>set ys. Image y = Some i"
    and d: "imageCalls (snd (snd (fold (staleStep e r st t) known (Some i, res1, m1)))) = imageCalls m1"
    by blast
  have "fst (snd (fold (staleStep e r st t) (s # known) (Some i, res, m))) = res @ (zs @ ys) \<and>
      (\<forall>y\<in>set (zs @ ys). Image y = Some i)"
    using b c zs by (auto simp: step img1 res1)
  then have "\<exists>ys. fst (snd (fold (staleStep e r st t) (s # known) (Some i, res, m))) = res @ ys \<and>
      (\<forall>y\<in>set ys. Image y = Some i)" by blast
  with a d show ?case by (simp add: step img1 calls)
qed

lemma sweep_image_ask:
  "\<exists>new. fst (snd (fold (staleStep e r st t) known (None, res, m))) = res @ new \<and>
     imagesShared e r (imageCalls m)
       (imageCalls (snd (snd (fold (staleStep e r st t) known (None, res, m))))) new"
proof (induction known arbitrary: res m)
  case Nil
  show ?case by (simp add: imagesShared_Nil)
next
  case (Cons s known)
  let ?a = "takeImage e (imageCalls m) r"
  obtain img1 res1 m1 where step: "staleStep e r st t s (None, res, m) = (img1, res1, m1)"
    by (cases "staleStep e r st t s (None, res, m)") auto
  show ?case
  proof (cases "staleAbsent r st t s \<and> State.State s = Alerting")
    case False
    with staleStep_image_other [of r st t s e None res m] step
    have "img1 = None" "res1 = res" "imageCalls m1 = imageCalls m" by auto
    with Cons.IH [of res m1] show ?thesis by (simp add: step)
  next
    case True
    with staleStep_image_ask [of r st t s e res m] step obtain x where
      img1: "img1 = (if noImage ?a then None else fst ?a)"
      and res1: "res1 = res @ [x]"
      and x: "Image x = (if noImage ?a then None else fst ?a)"
      and calls: "imageCalls m1 = Suc (imageCalls m)" by auto
    show ?thesis
    proof (cases "noImage ?a")
      case True
      from Cons.IH [of res1 m1] obtain new where
        new: "fst (snd (fold (staleStep e r st t) known (None, res1, m1))) = res1 @ new"
        and sh: "imagesShared e r (imageCalls m1)
          (imageCalls (snd (snd (fold (staleStep e r st t) known (None, res1, m1))))) new"
        by blast
      from True x have "Image x = None" by simp
      from imagesShared_fail [OF True this, of _ new] sh
      have "imagesShared e r (imageCalls m)
          (imageCalls (snd (snd (fold (staleStep e r st t) known (None, res1, m1))))) (x # new)"
        by (simp add: calls)
      moreover have "fst (snd (fold (staleStep e r st t) (s # known) (None, res, m))) = res @ (x # new)"
        using new True by (simp add: step img1 res1)
      ultimately show ?thesis
        using True by (auto simp: step img1)
    next
      case False
      then obtain i where a: "?a = (Some i, None)"
        by (cases ?a) (auto simp: noImage_def)
      with False img1 x have img1': "img1 = Some i" and x': "Image x = Some i" by simp_all
      from sweep_image_have [of e r st t known i res1 m1] obtain ys where
        ys: "fst (snd (fold (staleStep e r st t) known (Some i, res1, m1))) = res1 @ ys"
        and same: "\<forall>y\<in>set ys. Image y = Some i"
        and n: "imageCalls (snd (snd (fold (staleStep e r st t) known (Some i, res1, m1)))) = imageCalls m1"
        by blast
      have "\<forall>y\<in>set (x # ys). Image y = Some i"
        using same x' by simp
      from imagesShared_success [OF a this]
      have "imagesShared e r (imageCalls m) (Suc (imageCalls m)) (x # ys)"
        by simp
      moreover have "fst (snd (fold (staleStep e r st t) (s # known) (None, res, m))) = res @ (x # ys)"
        using ys by (simp add: step img1' res1)
      moreover have "imageCalls (snd (snd (fold (staleStep e r st t) (s # known) (None, res, m)))) =
          Suc (imageCalls m)"
        using n by (simp add: step img1' calls)
      ultimately show ?thesis by auto
    qed
  qed
qed

text \<open>
  C7, as amended. In one sweep the image service is asked once for each stale Alerting
  instance as long as no request has brought an image, and never after one has. The
  instances resolved up to then get no image, and all the instances resolved from the
  successful request on get the image of that request. So at most one image is captured
  in a sweep, and when the first request brings an image the service is asked exactly once
  and all resolved instances share that image.
\<close>

theorem stale_image_sharing:
  "\<exists>xs ys. fst (staleResultsHandler e m r st t) = xs @ ys \<and>
     (\<forall>x\<in>set xs. Image x = None) \<and>
     (\<forall>j<length xs. noImage (takeImage e (imageCalls m + j) r)) \<and>
     (ys = [] \<longrightarrow> imageCalls (snd (staleResultsHandler e m r st t)) = imageCalls m + length xs) \<and>
     (ys \<noteq> [] \<longrightarrow>
        imageCalls (snd (staleResultsHandler e m r st t)) = Suc (imageCalls m + length xs) \<and>
        (\<exists>i. takeImage e (imageCalls m + length xs) r = (Some i, None) \<and>
           (\<forall>y\<in>set ys. Image y = Some i)))"
  using sweep_image_ask [of e r st t "cache_getStatesForRuleUID (cache m) (AlertRule.OrgID r) (UID r)" "[]" m]
  unfolding imagesShared_def staleResultsHandler_fold by simp


text \<open>
  On the sample parameters, whose image service always answers with an image: two stale
  Alerting instances, one request, and both carry the image.
\<close>

theorem stale_image_sharing_witness:
  "imageCalls (snd (staleResultsHandler sampleEnv
       (managerWith [sampleState ''a'' Alerting 0, sampleState ''b'' Alerting 0])
       sampleRule Map.empty 25000000000)) = 1
   \<and> map Image (fst (staleResultsHandler sampleEnv
       (managerWith [sampleState ''a'' Alerting 0, sampleState ''b'' Alerting 0])
       sampleRule Map.empty 25000000000)) = [Some ''image'', Some ''image'']"
proof -
  let ?m = "managerWith [sampleState ''a'' Alerting 0, sampleState ''b'' Alerting 0]"
  let ?sweep = "staleResultsHandler sampleEnv ?m sampleRule Map.empty 25000000000"
  have len: "length (fst ?sweep) = 2" by code_simp
  have calls: "imageCalls ?m = 0" by code_simp
  have ok: "takeImage sampleEnv n sampleRule = (Some ''image'', None)" for n
    by (simp add: sampleEnv_def)
  from stale_image_sharing [of sampleEnv ?m sampleRule Map.empty 25000000000]
  obtain xs ys where split: "fst ?sweep = xs @ ys"
    and failed: "\<forall>j<length xs. noImage (takeImage sampleEnv (imageCalls ?m + j) sampleRule)"
    and none: "ys = [] \<longrightarrow> imageCalls (snd ?sweep) = imageCalls ?m + length xs"
    and some: "ys \<noteq> [] \<longrightarrow>
        imageCalls (snd ?sweep) = Suc (imageCalls ?m + length xs) \<and>
        (\<exists>i. takeImage sampleEnv (imageCalls ?m + length xs) sampleRule = (Some i, None) \<and>
           (\<forall>y\<in>set ys. Image y = Some i))"
    by blast
  from failed have xs: "xs = []"
    by (cases xs) (auto simp: ok noImage_def)
  with split len have ys: "ys \<noteq> []" "length ys = 2" "fst ?sweep = ys" by auto
  with some xs calls have n: "imageCalls (snd ?sweep) = 1"
    and all: "\<forall>y\<in>set ys. Image y = Some ''image''" by (auto simp: ok)
  from ys(2) obtain a b where "ys = [a, b]"
    by (cases ys; cases "tl ys") auto
  with all ys(3) n show ?thesis by simp
qed

text \<open>
  C7 as stated fails when the first request fails: with two stale Alerting instances and an
  image service that fails once, the service is asked twice in the one sweep, and the
  first instance has no image while the second has one.
\<close>

theorem stale_image_single_request_counterexample:
  "imageCalls (snd (staleResultsHandler flakyImages
       (managerWith [sampleState ''a'' Alerting 0, sampleState ''b'' Alerting 0])
       sampleRule Map.empty 25000000000)) = 2
   \<and> map Image (fst (staleResultsHandler flakyImages
       (managerWith [sampleState ''a'' Alerting 0, sampleState ''b'' Alerting 0])
       sampleRule Map.empty 25000000000)) = [None, Some ''image'']"
  by code_simp


section \<open>Properties of \<open>ProcessEvalResults\<close>\<close>

lemma getOrCreate_save [simp]:
  "cache_getOrCreate (e\<lparr>SaveAlertInstance := f\<rparr>) = cache_getOrCreate e"
  by (intro ext) (simp add: cache_getOrCreate_def)

lemma TrimResults_save [simp]: "TrimResults (e\<lparr>SaveAlertInstance := f\<rparr>) = TrimResults e"
  by (intro ext) (simp add: TrimResults_def)

lemma applyResult_save [simp]: "applyResult (e\<lparr>SaveAlertInstance := f\<rparr>) = applyResult e"
  by (intro ext) (simp add: applyResult_def split: eval_State.splits)

lemma requestImage_save [simp]: "requestImage (e\<lparr>SaveAlertInstance := f\<rparr>) = requestImage e"
  by (intro ext) (simp add: requestImage_def)

lemma setNextState_save [simp]: "setNextState (e\<lparr>SaveAlertInstance := f\<rparr>) = setNextState e"
  by (intro ext) (simp add: setNextState_def Let_def)

lemma processResult_save_acc:
  "processResult (e\<lparr>SaveAlertInstance := f\<rparr>) r l x acc = processResult e r l x acc"
  by (cases acc) (simp add: processResult_def)

lemma processResult_save [simp]: "processResult (e\<lparr>SaveAlertInstance := f\<rparr>) = processResult e"
  by (intro ext) (rule processResult_save_acc)

lemma staleStep_save_acc:
  "staleStep (e\<lparr>SaveAlertInstance := f\<rparr>) r st t s acc = staleStep e r st t s acc"
  by (cases acc) (simp add: staleStep_def Let_def)

lemma staleStep_save [simp]: "staleStep (e\<lparr>SaveAlertInstance := f\<rparr>) = staleStep e"
  by (intro ext) (rule staleStep_save_acc)

lemma staleResultsHandler_save [simp]:
  "staleResultsHandler (e\<lparr>SaveAlertInstance := f\<rparr>) = staleResultsHandler e"
  by (intro ext) (simp add: staleResultsHandler_def)

lemma saveStep_cache [simp]: "cache (saveStep e s m) = cache m"
  by (simp add: saveStep_def saveState_def Let_def)

lemma saveStep_fold_cache [simp]: "cache (fold (saveStep e) ss m) = cache m"
  by (induction ss arbitrary: m) simp_all

lemma saveStep_storeCalls [simp]: "storeCalls (saveStep e s m) = Suc (storeCalls m)"
  by (simp add: saveStep_def saveState_def Let_def)








text \<open>
  The batch that \<open>ProcessEvalResults\<close> hands to the sweep: an instance is absent from it
  exactly when none of the updated states has its \<open>CacheID\<close>.
\<close>

lemma processResult_fold_batch:
  "\<exists>new. fst (fold (processResult e r l) xs (ss, pr, m)) = ss @ new \<and>
     dom (fst (snd (fold (processResult e r l) xs (ss, pr, m)))) = dom pr \<union> CacheID ` set new"
proof (induction xs arbitrary: ss pr m)
  case Nil
  then show ?case by simp
next
  case (Cons x xs)
  let ?next = "setNextState e m r x l"
  from Cons.IH [of "ss @ [fst ?next]" "pr(CacheID (fst ?next) \<mapsto> fst ?next)" "snd ?next"]
  obtain new where
    new: "fst (fold (processResult e r l) xs
        (ss @ [fst ?next], pr(CacheID (fst ?next) \<mapsto> fst ?next), snd ?next)) = (ss @ [fst ?next]) @ new"
    and d: "dom (fst (snd (fold (processResult e r l) xs
        (ss @ [fst ?next], pr(CacheID (fst ?next) \<mapsto> fst ?next), snd ?next)))) =
        dom (pr(CacheID (fst ?next) \<mapsto> fst ?next)) \<union> CacheID ` set new"
    by blast
  have "fst (fold (processResult e r l) (x # xs) (ss, pr, m)) = ss @ (fst ?next # new)"
    using new by (simp add: processResult_def Let_def)
  moreover have "dom (fst (snd (fold (processResult e r l) (x # xs) (ss, pr, m)))) =
      dom pr \<union> CacheID ` set (fst ?next # new)"
    using d by (simp add: processResult_def Let_def)
  ultimately show ?case by blast
qed

lemma batch_absent:
  "fst (snd (fold (processResult e r l) xs ([], Map.empty, m))) cid = None \<longleftrightarrow>
     cid \<notin> CacheID ` set (updatedStates e m r xs l)"
proof -
  from processResult_fold_batch [of e r l xs "[]" Map.empty m]
  have "dom (fst (snd (fold (processResult e r l) xs ([], Map.empty, m)))) =
      CacheID ` set (updatedStates e m r xs l)"
    by (auto simp: updatedStates_def)
  then have "cid \<in> dom (fst (snd (fold (processResult e r l) xs ([], Map.empty, m)))) \<longleftrightarrow>
      cid \<in> CacheID ` set (updatedStates e m r xs l)"
    by simp
  then show ?thesis by (simp only: domIff) blast
qed

section \<open>The cache stays well formed\<close>

text \<open>
  The operations of the manager keep the cache well formed, starting from the empty cache;
  this is the assumption on the cache under which the sweep is characterised.
\<close>

lemma update_member:
  "kv \<in> set (AList.update k v al) \<Longrightarrow> kv \<in> set al \<or> kv = (k, v)"
  by (induction al) (auto split: if_splits)

lemma cache_wf_empty: "cache_wf []"
  by (simp add: cache_wf_def)

lemma cache_wf_update:
  assumes "cache_wf c" "k = stateKey s"
  shows "cache_wf (AList.update k s c)"
proof -
  from assms(1) have "distinct (map fst (AList.update k s c))"
    by (simp add: cache_wf_def distinct_update)
  moreover have "fst kv = stateKey (snd kv)" if "kv \<in> set (AList.update k s c)" for kv
    using update_member [OF that] assms by (auto simp: cache_wf_def list_all_iff)
  ultimately show ?thesis by (simp add: cache_wf_def list_all_iff)
qed

lemma cache_wf_set: "cache_wf c \<Longrightarrow> cache_wf (cache_set c s)"
  by (simp add: cache_set_def cache_wf_update)

lemma cache_wf_filter: "cache_wf c \<Longrightarrow> cache_wf (filter P c)"
  by (simp add: cache_wf_def distinct_map_filter list_all_iff)

lemma delete_filter: "AList.delete k c = filter (\<lambda>kv. fst kv \<noteq> k) c"
  by (induction c) auto

lemma cache_wf_delete: "cache_wf c \<Longrightarrow> cache_wf (cache_deleteEntry c orgID uid cid)"
  by (simp add: cache_deleteEntry_def delete_filter cache_wf_filter)

lemma cache_wf_getOrCreate:
  "cache_wf c \<Longrightarrow> cache_wf (snd (cache_getOrCreate e c r x l))"
  by (auto simp: cache_getOrCreate_def Let_def newState_def stateKey_def
      intro!: cache_wf_update split: option.splits)

lemma cache_taken:
  "cache (snd (if b then requestImage e r i m0 else (i, m0))) = cache m0"
  by simp

lemma setNextState_cache:
  "cache (snd (setNextState e m r x l)) =
     cache_set (snd (cache_getOrCreate e (cache m) r x l)) (fst (setNextState e m r x l))"
  unfolding setNextState_def Let_def set_state_def
  apply (simp only: fst_conv snd_conv)
  apply (simp add: cache_taken del: split_paired_All)
  done

lemma cache_wf_setNextState:
  "cache_wf (cache m) \<Longrightarrow> cache_wf (cache (snd (setNextState e m r x l)))"
  by (simp add: setNextState_cache cache_wf_set cache_wf_getOrCreate)

lemma cache_wf_sweep:
  "cache_wf (cache m) \<Longrightarrow> cache_wf (cache (snd (staleResultsHandler e m r st t)))"
  by (simp add: handler_cache cache_wf_filter)

lemma cache_wf_fold_set:
  "cache_wf c \<Longrightarrow> cache_wf (fold (\<lambda>s c. cache_set c s) ss c)"
  by (induction ss arbitrary: c) (simp_all add: cache_wf_set)

lemma cache_wf_Warm: "cache_wf (cache (Warm e m))"
  by (simp add: Warm_def Let_def set_states_cache ResetAllStates_def cache_reset_def
      cache_wf_fold_set cache_wf_empty)

lemma cache_wf_reset:
  "cache_wf (cache m) \<Longrightarrow> cache_wf (cache (snd (ResetStateByRuleUID e m orgID uid)))"
  by (simp add: ResetStateByRuleUID_cache cache_wf_filter)


end
